theory Spec2Isabelle
  imports Complex_Main
begin

section \<open>The AVL tree of data-structures/graphs/graph.ts\<close>

text \<open>
  Class \<open>AvlNode<T>\<close>: the fields \<open>data\<close>, \<open>left\<close>, \<open>right\<close> and the cached
  \<open>height\<close>. A reference that is \<open>null\<close> in the source is the constructor \<open>Null\<close>.
  The tree owns its nodes hierarchically (no node is reachable along two paths), so the
  in-place updates of the source are modelled by returning the updated node.

  A function of the source whose parameter has the non-null type \<open>AvlNode<T>\<close> reads a
  field of its argument first; on \<open>null\<close> that read throws a TypeError, which the
  model returns as \<open>None\<close>.
\<close>

datatype 'a AvlNode =
  Null
  | AvlNode (data: 'a) (left: "'a AvlNode") (right: "'a AvlNode") (height: int)

text \<open>
  Class \<open>AvlBinarySearchTree<T>\<close>: the root and the key count \<open>size\<close>. The comparison
  function is the default one of the constructor, over a linear order of keys.
\<close>

record 'a AvlBinarySearchTree =
  tree_root :: "'a AvlNode"
  tree_size :: int

definition empty_tree :: "'a AvlBinarySearchTree" where
  "empty_tree = \<lparr>tree_root = Null, tree_size = 0\<rparr>"

definition compare :: "'a::linorder \<Rightarrow> 'a \<Rightarrow> int" where
  "compare a b = (if a < b then -1 else if a > b then 1 else 0)"

subsection \<open>Heights and rotations\<close>

fun getHeight :: "'a AvlNode \<Rightarrow> int" where
  "getHeight Null = -1"
| "getHeight (AvlNode d l r h) = h"

fun updateHeight :: "'a AvlNode \<Rightarrow> 'a AvlNode option" where
  "updateHeight Null = None"
| "updateHeight (AvlNode d l r h) =
     Some (AvlNode d l r (1 + max (getHeight l) (getHeight r)))"

fun getBalanceFactor :: "'a AvlNode \<Rightarrow> int option" where
  "getBalanceFactor Null = None"
| "getBalanceFactor (AvlNode d l r h) = Some (getHeight l - getHeight r)"

text \<open>
  \<open>rotateRight(y)\<close>: \<open>x = y.left\<close>, \<open>B = x.right\<close>; \<open>x.right = y\<close>, \<open>y.left = B\<close>;
  the height of \<open>y\<close> is recomputed, then the height of \<open>x\<close> (which reads the new
  height of \<open>y\<close>).
\<close>

fun rotateRight :: "'a AvlNode \<Rightarrow> 'a AvlNode option" where
  "rotateRight Null = None"
| "rotateRight (AvlNode yd Null C yh) = None"
| "rotateRight (AvlNode yd (AvlNode xd A B xh) C yh) =
     (case updateHeight (AvlNode yd B C yh) of
        None \<Rightarrow> None
      | Some y \<Rightarrow> updateHeight (AvlNode xd A y xh))"

fun rotateLeft :: "'a AvlNode \<Rightarrow> 'a AvlNode option" where
  "rotateLeft Null = None"
| "rotateLeft (AvlNode xd A Null xh) = None"
| "rotateLeft (AvlNode xd A (AvlNode yd B C yh) xh) =
     (case updateHeight (AvlNode xd A B xh) of
        None \<Rightarrow> None
      | Some x \<Rightarrow> updateHeight (AvlNode yd x C yh))"

fun rotateLeftRight :: "'a AvlNode \<Rightarrow> 'a AvlNode option" where
  "rotateLeftRight Null = None"
| "rotateLeftRight (AvlNode d l r h) =
     (case rotateLeft l of
        None \<Rightarrow> None
      | Some l' \<Rightarrow> rotateRight (AvlNode d l' r h))"

fun rotateRightLeft :: "'a AvlNode \<Rightarrow> 'a AvlNode option" where
  "rotateRightLeft Null = None"
| "rotateRightLeft (AvlNode d l r h) =
     (case rotateRight r of
        None \<Rightarrow> None
      | Some r' \<Rightarrow> rotateLeft (AvlNode d l r' h))"

fun balance :: "'a AvlNode \<Rightarrow> 'a AvlNode option" where
  "balance Null = None"
| "balance (AvlNode d l r h) =
     (case updateHeight (AvlNode d l r h) of
        None \<Rightarrow> None
      | Some node \<Rightarrow>
         (case getBalanceFactor node of
            None \<Rightarrow> None
          | Some balanceFactor \<Rightarrow>
             if balanceFactor > 1 then
               (case getBalanceFactor l of
                  None \<Rightarrow> None
                | Some bl \<Rightarrow> if bl < 0 then rotateLeftRight node else rotateRight node)
             else if balanceFactor < -1 then
               (case getBalanceFactor r of
                  None \<Rightarrow> None
                | Some br \<Rightarrow> if br > 0 then rotateRightLeft node else rotateLeft node)
             else Some node))"

subsection \<open>Insertion\<close>

text \<open>
  \<open>insertNode\<close> changes \<open>this.size\<close> on the equality path, so the model threads the
  counter: the third argument is \<open>this.size\<close> at the call, the second component of
  the result is \<open>this.size\<close> at the return.
\<close>

fun insertNode :: "'a::linorder AvlNode \<Rightarrow> 'a \<Rightarrow> int \<Rightarrow> ('a AvlNode \<times> int) option" where
  "insertNode Null x sz = Some (AvlNode x Null Null 0, sz)"
| "insertNode (AvlNode d l r h) x sz =
     (if compare x d < 0 then
        (case insertNode l x sz of
           None \<Rightarrow> None
         | Some (l', sz') \<Rightarrow>
            (case balance (AvlNode d l' r h) of
               None \<Rightarrow> None
             | Some n \<Rightarrow> Some (n, sz')))
      else if compare x d > 0 then
        (case insertNode r x sz of
           None \<Rightarrow> None
         | Some (r', sz') \<Rightarrow>
            (case balance (AvlNode d l r' h) of
               None \<Rightarrow> None
             | Some n \<Rightarrow> Some (n, sz')))
      else Some (AvlNode d l r h, sz - 1))"

definition insert_key ::
  "'a::linorder AvlBinarySearchTree \<Rightarrow> 'a \<Rightarrow> 'a AvlBinarySearchTree option" where
  "insert_key t x =
     (case insertNode (tree_root t) x (tree_size t) of
        None \<Rightarrow> None
      | Some (n, sz) \<Rightarrow> Some \<lparr>tree_root = n, tree_size = sz + 1\<rparr>)"

subsection \<open>Search, minimum, deletion\<close>

fun searchNode :: "'a::linorder AvlNode \<Rightarrow> 'a \<Rightarrow> 'a AvlNode" where
  "searchNode Null x = Null"
| "searchNode (AvlNode d l r h) x =
     (if compare x d = 0 then AvlNode d l r h
      else if compare x d < 0 then searchNode l x
      else searchNode r x)"

definition search :: "'a::linorder AvlBinarySearchTree \<Rightarrow> 'a \<Rightarrow> bool" where
  "search t x = (searchNode (tree_root t) x \<noteq> Null)"

fun findMinNode :: "'a AvlNode \<Rightarrow> 'a AvlNode option" where
  "findMinNode Null = None"
| "findMinNode (AvlNode d Null r h) = Some (AvlNode d Null r h)"
| "findMinNode (AvlNode d (AvlNode ld ll lr lh) r h) = findMinNode (AvlNode ld ll lr lh)"

fun findMaxNode :: "'a AvlNode \<Rightarrow> 'a AvlNode option" where
  "findMaxNode Null = None"
| "findMaxNode (AvlNode d l Null h) = Some (AvlNode d l Null h)"
| "findMaxNode (AvlNode d l (AvlNode rd rl rr rh) h) = findMaxNode (AvlNode rd rl rr rh)"

text \<open>
  \<open>deleteNode\<close> threads \<open>this.size\<close> as \<open>insertNode\<close> does: the found node decrements
  it; with two children the successor's key is copied into the node, the successor
  is deleted from the right subtree by a recursive call (which decrements again), and
  the counter is incremented once.
\<close>

fun deleteNode :: "'a::linorder AvlNode \<Rightarrow> 'a \<Rightarrow> int \<Rightarrow> ('a AvlNode \<times> int) option" where
  "deleteNode Null x sz = Some (Null, sz)"
| "deleteNode (AvlNode d l r h) x sz =
     (if compare x d < 0 then
        (case deleteNode l x sz of
           None \<Rightarrow> None
         | Some (l', sz') \<Rightarrow>
            (case balance (AvlNode d l' r h) of
               None \<Rightarrow> None
             | Some n \<Rightarrow> Some (n, sz')))
      else if compare x d > 0 then
        (case deleteNode r x sz of
           None \<Rightarrow> None
         | Some (r', sz') \<Rightarrow>
            (case balance (AvlNode d l r' h) of
               None \<Rightarrow> None
             | Some n \<Rightarrow> Some (n, sz')))
      else if l = Null \<and> r = Null then Some (Null, sz - 1)
      else if l = Null then Some (r, sz - 1)
      else if r = Null then Some (l, sz - 1)
      else
        (case findMinNode r of
           None \<Rightarrow> None
         | Some successor \<Rightarrow>
            (case deleteNode r (data successor) (sz - 1) of
               None \<Rightarrow> None
             | Some (r', sz') \<Rightarrow>
                (case balance (AvlNode (data successor) l r' h) of
                   None \<Rightarrow> None
                 | Some n \<Rightarrow> Some (n, sz' + 1)))))"

definition delete_key ::
  "'a::linorder AvlBinarySearchTree \<Rightarrow> 'a \<Rightarrow> ('a AvlBinarySearchTree \<times> bool) option" where
  "delete_key t x =
     (case deleteNode (tree_root t) x (tree_size t) of
        None \<Rightarrow> None
      | Some (n, sz) \<Rightarrow> Some (\<lparr>tree_root = n, tree_size = sz\<rparr>, sz < tree_size t))"

definition findMin :: "'a AvlBinarySearchTree \<Rightarrow> 'a option" where
  "findMin t = (case findMinNode (tree_root t) of None \<Rightarrow> None | Some n \<Rightarrow> Some (data n))"

definition findMax :: "'a AvlBinarySearchTree \<Rightarrow> 'a option" where
  "findMax t = (case findMaxNode (tree_root t) of None \<Rightarrow> None | Some n \<Rightarrow> Some (data n))"

subsection \<open>Traversal, size, height\<close>

text \<open>
  \<open>inorderHelper(node, result)\<close> pushes onto \<open>result\<close>; the model returns the array.
  The method \<open>height()\<close> is \<open>tree_height\<close> here (\<open>height\<close> is the node's field), and
  \<open>count()\<close> returns the counter \<open>this.size\<close>.
\<close>

fun inorderHelper :: "'a AvlNode \<Rightarrow> 'a list \<Rightarrow> 'a list" where
  "inorderHelper Null result = result"
| "inorderHelper (AvlNode d l r h) result = inorderHelper r (inorderHelper l result @ [d])"

definition inorderTraversal :: "'a AvlBinarySearchTree \<Rightarrow> 'a list" where
  "inorderTraversal t = inorderHelper (tree_root t) []"

definition tree_height :: "'a AvlBinarySearchTree \<Rightarrow> int" where
  "tree_height t = getHeight (tree_root t)"

definition count :: "'a AvlBinarySearchTree \<Rightarrow> int" where
  "count t = tree_size t"

definition isBalanced :: "'a AvlBinarySearchTree \<Rightarrow> bool" where
  "isBalanced t = True"

subsection \<open>Rank query and lowest common ancestor\<close>

text \<open>
  The object \<open>result = { count, value }\<close> that \<open>kthSmallestHelper\<close> updates is the pair
  passed and returned.
\<close>

fun kthSmallestHelper :: "'a AvlNode \<Rightarrow> int \<Rightarrow> int \<times> 'a option \<Rightarrow> int \<times> 'a option" where
  "kthSmallestHelper Null k result = result"
| "kthSmallestHelper (AvlNode d l r h) k result =
     (if snd result \<noteq> None then result
      else
        (let result1 = kthSmallestHelper l k result;
             result2 = (fst result1 + 1, snd result1)
         in if fst result2 = k then (fst result2, Some d)
            else kthSmallestHelper r k result2))"

definition kthSmallest :: "'a AvlBinarySearchTree \<Rightarrow> int \<Rightarrow> 'a option" where
  "kthSmallest t k =
     (if k \<le> 0 \<or> k > tree_size t then None
      else snd (kthSmallestHelper (tree_root t) k (0, None)))"

fun findLCA :: "'a::linorder AvlNode \<Rightarrow> 'a \<Rightarrow> 'a \<Rightarrow> 'a AvlNode" where
  "findLCA Null val1 val2 = Null"
| "findLCA (AvlNode d l r h) val1 val2 =
     (if compare val1 d < 0 \<and> compare val2 d < 0 then findLCA l val1 val2
      else if compare val1 d > 0 \<and> compare val2 d > 0 then findLCA r val1 val2
      else AvlNode d l r h)"

definition lowestCommonAncestor :: "'a::linorder AvlBinarySearchTree \<Rightarrow> 'a \<Rightarrow> 'a \<Rightarrow> 'a option" where
  "lowestCommonAncestor t val1 val2 =
     (case findLCA (tree_root t) val1 val2 of
        Null \<Rightarrow> None
      | AvlNode d l r h \<Rightarrow> Some d)"

subsection \<open>Validators\<close>

text \<open>The bounds \<open>min\<close> and \<open>max\<close> of \<open>validateBST\<close> are \<open>null\<close> when absent.\<close>

fun validateBST :: "'a::linorder AvlNode \<Rightarrow> 'a option \<Rightarrow> 'a option \<Rightarrow> bool" where
  "validateBST Null mn mx = True"
| "validateBST (AvlNode d l r h) mn mx =
     (if (case mn of None \<Rightarrow> False | Some m \<Rightarrow> compare d m \<le> 0)
         \<or> (case mx of None \<Rightarrow> False | Some m \<Rightarrow> compare d m \<ge> 0)
      then False
      else validateBST l mn (Some d) \<and> validateBST r (Some d) mx)"

definition isValidBST :: "'a::linorder AvlBinarySearchTree \<Rightarrow> bool" where
  "isValidBST t = validateBST (tree_root t) None None"

fun validateAVL :: "'a AvlNode \<Rightarrow> bool" where
  "validateAVL Null = True"
| "validateAVL (AvlNode d l r h) =
     (if \<bar>getHeight l - getHeight r\<bar> > 1 then False
      else if h \<noteq> 1 + max (getHeight l) (getHeight r) then False
      else validateAVL l \<and> validateAVL r)"

definition isValidAVL :: "'a AvlBinarySearchTree \<Rightarrow> bool" where
  "isValidAVL t = validateAVL (tree_root t)"

subsection \<open>The plain binary search tree's balance check\<close>

text \<open>
  Class \<open>TreeNode<T>\<close> of \<open>BinarySearchTree\<close> has no cached height; \<open>checkBalance\<close>
  measures the subtrees (counting nodes, 0 for \<open>null\<close>) and returns -1 for an
  unbalanced subtree.
\<close>

datatype 'a TreeNode = TNull | TreeNode 'a "'a TreeNode" "'a TreeNode"

fun checkBalance :: "'a TreeNode \<Rightarrow> int" where
  "checkBalance TNull = 0"
| "checkBalance (TreeNode d l r) =
     (let leftHeight = checkBalance l in
      if leftHeight = -1 then -1
      else
        (let rightHeight = checkBalance r in
         if rightHeight = -1 then -1
         else if \<bar>leftHeight - rightHeight\<bar> > 1 then -1
         else 1 + max leftHeight rightHeight))"

definition bst_isBalanced :: "'a TreeNode \<Rightarrow> bool" where
  "bst_isBalanced root_node = (checkBalance root_node \<noteq> -1)"

subsection \<open>Specification-level views of a tree\<close>

text \<open>The key sequence of a subtree, left to right.\<close>

fun inorder :: "'a AvlNode \<Rightarrow> 'a list" where
  "inorder Null = []"
| "inorder (AvlNode d l r h) = inorder l @ d # inorder r"

text \<open>The plain tree with the shape and keys of an AVL subtree (cached heights dropped).\<close>

fun plain :: "'a AvlNode \<Rightarrow> 'a TreeNode" where
  "plain Null = TNull"
| "plain (AvlNode d l r h) = TreeNode d (plain l) (plain r)"

text \<open>
  A valid tree state: both validators of the class accept it, and the counter is the
  number of stored keys.
\<close>

definition valid_state :: "'a::linorder AvlBinarySearchTree \<Rightarrow> bool" where
  "valid_state t \<longleftrightarrow>
     isValidBST t \<and> isValidAVL t \<and> tree_size t = int (length (inorderTraversal t))"

text \<open>Calls of the two mutating methods, and a sequence of them run one after the other.\<close>

datatype 'a operation = Insert 'a | Delete 'a

fun apply_operation ::
  "'a::linorder AvlBinarySearchTree \<Rightarrow> 'a operation \<Rightarrow> 'a AvlBinarySearchTree option" where
  "apply_operation t (Insert x) = insert_key t x"
| "apply_operation t (Delete x) =
     (case delete_key t x of None \<Rightarrow> None | Some (t', removed) \<Rightarrow> Some t')"

fun run_operations ::
  "'a::linorder AvlBinarySearchTree \<Rightarrow> 'a operation list \<Rightarrow> 'a AvlBinarySearchTree option" where
  "run_operations t [] = Some t"
| "run_operations t (c # cs) =
     (case apply_operation t c of None \<Rightarrow> None | Some t' \<Rightarrow> run_operations t' cs)"

subsection \<open>Constructions for the height bound\<close>

text \<open>
  The definitions of this subsection are not functions of the source; they are the
  means of the proofs about the height of trees built by insertions only.

  \<open>ins\<close> is insertion without rebalancing, every visited node's height recomputed;
  \<open>insertNode\<close> agrees with it whenever no node on the path leaves balance.
  \<open>steps_ok xs t\<close>: the keys \<open>xs\<close>, inserted into \<open>t\<close> one after the other, are all
  new and every intermediate tree passes \<open>validateAVL\<close>.
\<close>

fun ins :: "'a::linorder \<Rightarrow> 'a AvlNode \<Rightarrow> 'a AvlNode" where
  "ins x Null = AvlNode x Null Null 0"
| "ins x (AvlNode d l r h) =
     (if x < d then AvlNode d (ins x l) r (1 + max (getHeight (ins x l)) (getHeight r))
      else if d < x then AvlNode d l (ins x r) (1 + max (getHeight l) (getHeight (ins x r)))
      else AvlNode d l r h)"

fun steps_ok :: "'a::linorder list \<Rightarrow> 'a AvlNode \<Rightarrow> bool" where
  "steps_ok [] t = True"
| "steps_ok (x # xs) t =
     (x \<notin> set (inorder t) \<and> validateAVL (ins x t) \<and> steps_ok xs (ins x t))"

text \<open>
  \<open>trunc j t\<close> is \<open>t\<close> cut below its first \<open>j\<close> levels (heights recomputed),
  \<open>level j t\<close> the keys at depth \<open>j\<close> from left to right, and \<open>levels_upto n t\<close> the
  keys of the first \<open>n\<close> levels in level order.
\<close>

fun trunc :: "nat \<Rightarrow> 'a AvlNode \<Rightarrow> 'a AvlNode" where
  "trunc 0 t = Null"
| "trunc (Suc j) Null = Null"
| "trunc (Suc j) (AvlNode d l r h) =
     AvlNode d (trunc j l) (trunc j r) (1 + max (getHeight (trunc j l)) (getHeight (trunc j r)))"

fun level :: "nat \<Rightarrow> 'a AvlNode \<Rightarrow> 'a list" where
  "level j Null = []"
| "level 0 (AvlNode d l r h) = [d]"
| "level (Suc j) (AvlNode d l r h) = level j l @ level j r"

definition levels_upto :: "nat \<Rightarrow> 'a AvlNode \<Rightarrow> 'a list" where
  "levels_upto n t = concat (map (\<lambda>j. level j t) [0..<n])"

text \<open>
  \<open>min_nodes k\<close> is the least number of keys of a balanced tree with \<open>k\<close> levels
  (height \<open>k - 1\<close>), and \<open>sparse_tree k lo\<close> a search tree with exactly that many
  keys, \<open>lo, lo + 1, \<dots>\<close>, whose left subtree is one level deeper than its right
  subtree at every node.
\<close>

fun min_nodes :: "nat \<Rightarrow> nat" where
  "min_nodes 0 = 0"
| "min_nodes (Suc 0) = 1"
| "min_nodes (Suc (Suc k)) = min_nodes (Suc k) + min_nodes k + 1"

fun sparse_tree :: "nat \<Rightarrow> int \<Rightarrow> int AvlNode" where
  "sparse_tree 0 lo = Null"
| "sparse_tree (Suc 0) lo = AvlNode lo Null Null 0"
| "sparse_tree (Suc (Suc k)) lo =
     AvlNode (lo + int (min_nodes (Suc k)))
       (sparse_tree (Suc k) lo)
       (sparse_tree k (lo + int (min_nodes (Suc k)) + 1))
       (int k + 1)"

section \<open>Proofs\<close>

subsection \<open>Rebalancing\<close>

lemma inorderHelper_append: "inorderHelper t acc = acc @ inorder t"
  by (induction t arbitrary: acc) auto

lemma validateAVL_height_ge: "validateAVL t \<Longrightarrow> getHeight t \<ge> -1"
  by (induction t) (auto split: if_splits)

lemma validateAVL_height_Null: "validateAVL t \<Longrightarrow> getHeight t < 0 \<Longrightarrow> t = Null"
  using validateAVL_height_ge by (cases t) (fastforce split: if_splits)+

lemma balance_no_rotation:
  "\<bar>getHeight l - getHeight r\<bar> \<le> 1 \<Longrightarrow>
   balance (AvlNode d l r h) = Some (AvlNode d l r (1 + max (getHeight l) (getHeight r)))"
  by auto

lemma balance_left_heavy:
  assumes "validateAVL l" "validateAVL r" "getHeight l = getHeight r + 2"
  shows "\<exists>t. balance (AvlNode d l r h) = Some t \<and> validateAVL t \<and> t \<noteq> Null
     \<and> inorder t = inorder l @ d # inorder r
     \<and> (getHeight t = getHeight l \<or> getHeight t = getHeight l + 1)"
proof -
  have hr: "getHeight r \<ge> -1" using assms(2) by (rule validateAVL_height_ge)
  then obtain ld ll lr lh where l: "l = AvlNode ld ll lr lh"
    using assms(1,3) by (cases l) auto
  have hll: "getHeight ll \<ge> -1" and hlr: "getHeight lr \<ge> -1"
    using assms(1) l validateAVL_height_ge[of ll] validateAVL_height_ge[of lr]
    by (auto split: if_splits)
  show ?thesis
  proof (cases "getHeight ll - getHeight lr < 0")
    case False
    then show ?thesis using assms l by (auto split: if_splits)
  next
    case True
    then obtain bd bl br bh where lr: "lr = AvlNode bd bl br bh"
      using hll by (cases lr) auto
    then show ?thesis using True assms l by (auto split: if_splits)
  qed
qed

lemma balance_right_heavy:
  assumes "validateAVL l" "validateAVL r" "getHeight r = getHeight l + 2"
  shows "\<exists>t. balance (AvlNode d l r h) = Some t \<and> validateAVL t \<and> t \<noteq> Null
     \<and> inorder t = inorder l @ d # inorder r
     \<and> (getHeight t = getHeight r \<or> getHeight t = getHeight r + 1)"
proof -
  have hl: "getHeight l \<ge> -1" using assms(1) by (rule validateAVL_height_ge)
  then obtain rd rl rr rh where r: "r = AvlNode rd rl rr rh"
    using assms(2,3) by (cases r) auto
  have hrl: "getHeight rl \<ge> -1" and hrr: "getHeight rr \<ge> -1"
    using assms(2) r validateAVL_height_ge[of rl] validateAVL_height_ge[of rr]
    by (auto split: if_splits)
  show ?thesis
  proof (cases "getHeight rl - getHeight rr > 0")
    case False
    then show ?thesis using assms r by (auto split: if_splits)
  next
    case True
    then obtain bd bl br bh where rl: "rl = AvlNode bd bl br bh"
      using hrr by (cases rl) auto
    then show ?thesis using True assms r by (auto split: if_splits)
  qed
qed

lemma sorted_mid:
  "sorted_wrt (<) (xs @ (d::'a::linorder) # ys) \<longleftrightarrow>
     sorted_wrt (<) xs \<and> sorted_wrt (<) ys \<and> (\<forall>x\<in>set xs. x < d) \<and> (\<forall>y\<in>set ys. d < y)"
  by (auto simp: sorted_wrt_append intro: less_trans)

lemma balance_ok:
  assumes "validateAVL l" "validateAVL r" "\<bar>getHeight l - getHeight r\<bar> \<le> 2"
  shows "\<exists>t. balance (AvlNode d l r h) = Some t \<and> validateAVL t \<and> t \<noteq> Null
     \<and> inorder t = inorder l @ d # inorder r
     \<and> (getHeight t = 1 + max (getHeight l) (getHeight r)
        \<or> (\<bar>getHeight l - getHeight r\<bar> = 2 \<and> getHeight t = max (getHeight l) (getHeight r)))"
proof -
  consider (bal) "\<bar>getHeight l - getHeight r\<bar> \<le> 1"
    | (lh) "getHeight l = getHeight r + 2" | (rh) "getHeight r = getHeight l + 2"
    using assms(3) by linarith
  then show ?thesis
  proof cases
    case bal
    then show ?thesis using assms(1,2) balance_no_rotation[OF bal, of d h] by simp
  next
    case lh
    from balance_left_heavy[OF assms(1,2) lh, of d h] lh show ?thesis by auto
  next
    case rh
    from balance_right_heavy[OF assms(1,2) rh, of d h] rh show ?thesis by auto
  qed
qed

subsection \<open>Insertion and deletion keep the tree ordered and balanced\<close>

lemma insertNode_ok:
  assumes "validateAVL t" "sorted_wrt (<) (inorder t)"
  shows "\<exists>t'. insertNode t x sz = Some (t', if x \<in> set (inorder t) then sz - 1 else sz)
     \<and> validateAVL t' \<and> t' \<noteq> Null \<and> sorted_wrt (<) (inorder t')
     \<and> set (inorder t') = insert x (set (inorder t))
     \<and> (getHeight t' = getHeight t \<or> getHeight t' = getHeight t + 1)
     \<and> (if x \<in> set (inorder t) then t' = t else length (inorder t') = length (inorder t) + 1)"
  using assms
proof (induction t)
  case Null
  then show ?case by simp
next
  case (AvlNode d l r h)
  have vl: "validateAVL l" and vr: "validateAVL r"
    and bal: "\<bar>getHeight l - getHeight r\<bar> \<le> 1" and h: "h = 1 + max (getHeight l) (getHeight r)"
    using AvlNode.prems(1) by (auto split: if_splits)
  have sl: "sorted_wrt (<) (inorder l)" and sr: "sorted_wrt (<) (inorder r)"
    and ld: "\<forall>y\<in>set (inorder l). y < d" and rd: "\<forall>y\<in>set (inorder r). d < y"
    using AvlNode.prems(2) by (auto simp: sorted_mid)
  consider (lt) "x < d" | (gt) "d < x" | (eq) "x = d" by (cases x d rule: linorder_cases) auto
  then show ?case
  proof cases
    case lt
    from AvlNode.IH(1)[OF vl sl] obtain l' where
      l': "insertNode l x sz = Some (l', if x \<in> set (inorder l) then sz - 1 else sz)"
      "validateAVL l'" "sorted_wrt (<) (inorder l')" "set (inorder l') = insert x (set (inorder l))"
      "getHeight l' = getHeight l \<or> getHeight l' = getHeight l + 1"
      "if x \<in> set (inorder l) then l' = l else length (inorder l') = length (inorder l) + 1"
      by blast
    have "\<bar>getHeight l' - getHeight r\<bar> \<le> 2" using l'(5) bal by linarith
    from balance_ok[OF l'(2) vr this, of d h] obtain t' where
      t': "balance (AvlNode d l' r h) = Some t'" "validateAVL t'" "t' \<noteq> Null"
      "inorder t' = inorder l' @ d # inorder r"
      "getHeight t' = 1 + max (getHeight l') (getHeight r)
        \<or> (\<bar>getHeight l' - getHeight r\<bar> = 2 \<and> getHeight t' = max (getHeight l') (getHeight r))"
      by blast
    have mem: "x \<in> set (inorder (AvlNode d l r h)) \<longleftrightarrow> x \<in> set (inorder l)"
      using lt rd by auto
    have same: "x \<in> set (inorder l) \<Longrightarrow> t' = AvlNode d l r h"
      using l'(6) t'(1) bal h balance_no_rotation[OF bal, of d h] by simp
    have "insertNode (AvlNode d l r h) x sz = Some (t', if x \<in> set (inorder l) then sz - 1 else sz)"
      using lt l'(1) t'(1) by (simp add: compare_def del: balance.simps)
    moreover have "sorted_wrt (<) (inorder t')"
      using t'(4) l'(3,4) sr ld rd lt by (auto simp: sorted_mid)
    moreover have "set (inorder t') = insert x (set (inorder (AvlNode d l r h)))"
      using t'(4) l'(4) by auto
    moreover have "getHeight t' = getHeight (AvlNode d l r h) \<or> getHeight t' = getHeight (AvlNode d l r h) + 1"
      using t'(5) l'(5) bal h by (simp) linarith
    moreover have "if x \<in> set (inorder l) then t' = AvlNode d l r h
       else length (inorder t') = length (inorder (AvlNode d l r h)) + 1"
      using same l'(6) t'(4) by auto
    ultimately show ?thesis using t'(2,3) mem by simp
  next
    case gt
    from AvlNode.IH(2)[OF vr sr] obtain r' where
      r': "insertNode r x sz = Some (r', if x \<in> set (inorder r) then sz - 1 else sz)"
      "validateAVL r'" "sorted_wrt (<) (inorder r')" "set (inorder r') = insert x (set (inorder r))"
      "getHeight r' = getHeight r \<or> getHeight r' = getHeight r + 1"
      "if x \<in> set (inorder r) then r' = r else length (inorder r') = length (inorder r) + 1"
      by blast
    have "\<bar>getHeight l - getHeight r'\<bar> \<le> 2" using r'(5) bal by linarith
    from balance_ok[OF vl r'(2) this, of d h] obtain t' where
      t': "balance (AvlNode d l r' h) = Some t'" "validateAVL t'" "t' \<noteq> Null"
      "inorder t' = inorder l @ d # inorder r'"
      "getHeight t' = 1 + max (getHeight l) (getHeight r')
        \<or> (\<bar>getHeight l - getHeight r'\<bar> = 2 \<and> getHeight t' = max (getHeight l) (getHeight r'))"
      by blast
    have mem: "x \<in> set (inorder (AvlNode d l r h)) \<longleftrightarrow> x \<in> set (inorder r)"
      using gt ld by auto
    have same: "x \<in> set (inorder r) \<Longrightarrow> t' = AvlNode d l r h"
      using r'(6) t'(1) bal h balance_no_rotation[OF bal, of d h] by simp
    have "insertNode (AvlNode d l r h) x sz = Some (t', if x \<in> set (inorder r) then sz - 1 else sz)"
      using gt r'(1) t'(1) not_less_iff_gr_or_eq[of x d] by (simp add: compare_def del: balance.simps)
    moreover have "sorted_wrt (<) (inorder t')"
      using t'(4) r'(3,4) sl ld rd gt by (auto simp: sorted_mid)
    moreover have "set (inorder t') = insert x (set (inorder (AvlNode d l r h)))"
      using t'(4) r'(4) by auto
    moreover have "getHeight t' = getHeight (AvlNode d l r h) \<or> getHeight t' = getHeight (AvlNode d l r h) + 1"
      using t'(5) r'(5) bal h by (simp) linarith
    moreover have "if x \<in> set (inorder r) then t' = AvlNode d l r h
       else length (inorder t') = length (inorder (AvlNode d l r h)) + 1"
      using same r'(6) t'(4) by auto
    ultimately show ?thesis using t'(2,3) mem by simp
  next
    case eq
    then show ?thesis using AvlNode.prems by (simp add: compare_def)
  qed
qed


lemma findMinNode_ok:
  "t \<noteq> Null \<Longrightarrow> \<exists>n. findMinNode t = Some n \<and> n \<noteq> Null \<and> inorder t \<noteq> [] \<and> data n = hd (inorder t)"
  by (induction t rule: findMinNode.induct) (auto simp: hd_append)

lemma deleteNode_ok:
  assumes "validateAVL t" "sorted_wrt (<) (inorder t)"
  shows "\<exists>t'. deleteNode t x sz = Some (t', if x \<in> set (inorder t) then sz - 1 else sz)
     \<and> validateAVL t' \<and> sorted_wrt (<) (inorder t')
     \<and> set (inorder t') = set (inorder t) - {x}
     \<and> (getHeight t' = getHeight t \<or> getHeight t' = getHeight t - 1)
     \<and> length (inorder t') = (if x \<in> set (inorder t) then length (inorder t) - 1 else length (inorder t))"
  using assms
proof (induction t arbitrary: x sz)
  case Null
  then show ?case by simp
next
  case (AvlNode d l r h)
  have vl: "validateAVL l" and vr: "validateAVL r"
    and bal: "\<bar>getHeight l - getHeight r\<bar> \<le> 1" and h: "h = 1 + max (getHeight l) (getHeight r)"
    using AvlNode.prems(1) by (auto split: if_splits)
  have sl: "sorted_wrt (<) (inorder l)" and sr: "sorted_wrt (<) (inorder r)"
    and ld: "\<forall>y\<in>set (inorder l). y < d" and rd: "\<forall>y\<in>set (inorder r). d < y"
    using AvlNode.prems(2) by (auto simp: sorted_mid)
  have dl: "d \<notin> set (inorder l)" and dr: "d \<notin> set (inorder r)" using ld rd by auto
  consider (lt) "x < d" | (gt) "d < x" | (eq) "x = d" by (cases x d rule: linorder_cases) auto
  then show ?case
  proof cases
    case lt
    from AvlNode.IH(1)[OF vl sl, of x sz] obtain l' where
      l': "deleteNode l x sz = Some (l', if x \<in> set (inorder l) then sz - 1 else sz)"
      "validateAVL l'" "sorted_wrt (<) (inorder l')" "set (inorder l') = set (inorder l) - {x}"
      "getHeight l' = getHeight l \<or> getHeight l' = getHeight l - 1"
      "length (inorder l') = (if x \<in> set (inorder l) then length (inorder l) - 1 else length (inorder l))"
      by blast
    have "\<bar>getHeight l' - getHeight r\<bar> \<le> 2" using l'(5) bal by linarith
    from balance_ok[OF l'(2) vr this, of d h] obtain t' where
      t': "balance (AvlNode d l' r h) = Some t'" "validateAVL t'"
      "inorder t' = inorder l' @ d # inorder r"
      "getHeight t' = 1 + max (getHeight l') (getHeight r)
        \<or> (\<bar>getHeight l' - getHeight r\<bar> = 2 \<and> getHeight t' = max (getHeight l') (getHeight r))"
      by blast
    have mem: "x \<in> set (inorder (AvlNode d l r h)) \<longleftrightarrow> x \<in> set (inorder l)"
      using lt rd by auto
    have "deleteNode (AvlNode d l r h) x sz = Some (t', if x \<in> set (inorder l) then sz - 1 else sz)"
      using lt l'(1) t'(1) by (simp add: compare_def del: balance.simps)
    moreover have "sorted_wrt (<) (inorder t')"
      using t'(3) l'(3,4) sr ld rd lt by (auto simp: sorted_mid)
    moreover have "set (inorder t') = set (inorder (AvlNode d l r h)) - {x}"
      using t'(3) l'(4) lt rd by auto
    moreover have "getHeight t' = getHeight (AvlNode d l r h) \<or> getHeight t' = getHeight (AvlNode d l r h) - 1"
      using t'(4) l'(5) bal h by (simp) linarith
    moreover have "length (inorder t') = (if x \<in> set (inorder l) then length (inorder (AvlNode d l r h)) - 1
         else length (inorder (AvlNode d l r h)))"
      using l'(6) t'(3) length_pos_if_in_set[of x "inorder l"] by auto
    ultimately show ?thesis using t'(2) mem by simp
  next
    case gt
    from AvlNode.IH(2)[OF vr sr, of x sz] obtain r' where
      r': "deleteNode r x sz = Some (r', if x \<in> set (inorder r) then sz - 1 else sz)"
      "validateAVL r'" "sorted_wrt (<) (inorder r')" "set (inorder r') = set (inorder r) - {x}"
      "getHeight r' = getHeight r \<or> getHeight r' = getHeight r - 1"
      "length (inorder r') = (if x \<in> set (inorder r) then length (inorder r) - 1 else length (inorder r))"
      by blast
    have "\<bar>getHeight l - getHeight r'\<bar> \<le> 2" using r'(5) bal by linarith
    from balance_ok[OF vl r'(2) this, of d h] obtain t' where
      t': "balance (AvlNode d l r' h) = Some t'" "validateAVL t'"
      "inorder t' = inorder l @ d # inorder r'"
      "getHeight t' = 1 + max (getHeight l) (getHeight r')
        \<or> (\<bar>getHeight l - getHeight r'\<bar> = 2 \<and> getHeight t' = max (getHeight l) (getHeight r'))"
      by blast
    have mem: "x \<in> set (inorder (AvlNode d l r h)) \<longleftrightarrow> x \<in> set (inorder r)"
      using gt ld by auto
    have "deleteNode (AvlNode d l r h) x sz = Some (t', if x \<in> set (inorder r) then sz - 1 else sz)"
      using gt r'(1) t'(1) not_less_iff_gr_or_eq[of x d] by (simp add: compare_def del: balance.simps)
    moreover have "sorted_wrt (<) (inorder t')"
      using t'(3) r'(3,4) sl ld rd gt by (auto simp: sorted_mid)
    moreover have "set (inorder t') = set (inorder (AvlNode d l r h)) - {x}"
      using t'(3) r'(4) gt ld by auto
    moreover have "getHeight t' = getHeight (AvlNode d l r h) \<or> getHeight t' = getHeight (AvlNode d l r h) - 1"
      using t'(4) r'(5) bal h by (simp) linarith
    moreover have "length (inorder t') = (if x \<in> set (inorder r) then length (inorder (AvlNode d l r h)) - 1
         else length (inorder (AvlNode d l r h)))"
      using r'(6) t'(3) length_pos_if_in_set[of x "inorder r"] by auto
    ultimately show ?thesis using t'(2) mem by simp
  next
    case eq
    show ?thesis
    proof (cases "l = Null \<or> r = Null")
      case True
      then show ?thesis
        using eq vl vr sl sr dl dr bal h validateAVL_height_ge[OF vl] validateAVL_height_ge[OF vr]
        by (auto simp: compare_def simp del: balance.simps)
    next
      case False
      then have lN: "l \<noteq> Null" and rN: "r \<noteq> Null" by auto
      from findMinNode_ok[OF rN] obtain n where
        n: "findMinNode r = Some n" "inorder r \<noteq> []" "data n = hd (inorder r)" by blast
      define s where "s = data n"
      have s_in: "s \<in> set (inorder r)" using n(2,3) s_def by simp
      have s_min: "\<forall>y\<in>set (inorder r) - {s}. s < y"
        using sr n(2,3) s_def by (cases "inorder r") auto
      from AvlNode.IH(2)[OF vr sr, of s "sz - 1"] s_in obtain r' where
        r': "deleteNode r s (sz - 1) = Some (r', sz - 1 - 1)"
        "validateAVL r'" "sorted_wrt (<) (inorder r')" "set (inorder r') = set (inorder r) - {s}"
        "getHeight r' = getHeight r \<or> getHeight r' = getHeight r - 1"
        "length (inorder r') = length (inorder r) - 1"
        by auto
      have "\<bar>getHeight l - getHeight r'\<bar> \<le> 2" using r'(5) bal by linarith
      from balance_ok[OF vl r'(2) this, of s h] obtain t' where
        t': "balance (AvlNode s l r' h) = Some t'" "validateAVL t'"
        "inorder t' = inorder l @ s # inorder r'"
        "getHeight t' = 1 + max (getHeight l) (getHeight r')
          \<or> (\<bar>getHeight l - getHeight r'\<bar> = 2 \<and> getHeight t' = max (getHeight l) (getHeight r'))"
        by blast
      have "deleteNode (AvlNode d l r h) x sz = Some (t', sz - 1)"
        using eq lN rN n(1) r'(1) t'(1) s_def by (simp add: compare_def del: balance.simps)
      moreover have "sorted_wrt (<) (inorder t')"
        using t'(3) r'(3,4) sl ld rd s_in s_min by (auto simp: sorted_mid intro: less_trans)
      moreover have "set (inorder t') = set (inorder (AvlNode d l r h)) - {x}"
        using t'(3) r'(4) eq dl dr s_in by auto
      moreover have "getHeight t' = getHeight (AvlNode d l r h) \<or> getHeight t' = getHeight (AvlNode d l r h) - 1"
        using t'(4) r'(5) bal h by (simp) linarith
      moreover have "length (inorder t') = length (inorder (AvlNode d l r h)) - 1"
        using r'(6) t'(3) n(2) by (cases "inorder r") auto
      ultimately show ?thesis using t'(2) eq by simp
    qed
  qed
qed


subsection \<open>The validators and the tree handle\<close>

lemma validateBST_iff:
  "validateBST t mn mx \<longleftrightarrow>
     sorted_wrt (<) (inorder t)
     \<and> (\<forall>k\<in>set (inorder t). (case mn of None \<Rightarrow> True | Some m \<Rightarrow> m < k)
                              \<and> (case mx of None \<Rightarrow> True | Some m \<Rightarrow> k < m))"
proof (induction t arbitrary: mn mx)
  case Null
  then show ?case by simp
next
  case (AvlNode d l r h)
  show ?case
    unfolding validateBST.simps AvlNode.IH inorder.simps sorted_mid
    by (cases mn; cases mx) (auto simp: compare_def intro: less_trans)
qed

lemma isValidBST_iff: "isValidBST t \<longleftrightarrow> sorted_wrt (<) (inorderTraversal t)"
  by (simp add: isValidBST_def inorderTraversal_def inorderHelper_append validateBST_iff)

lemma searchNode_iff:
  "sorted_wrt (<) (inorder t) \<Longrightarrow> searchNode t x \<noteq> Null \<longleftrightarrow> x \<in> set (inorder t)"
  by (induction t) (auto simp: compare_def sorted_mid)

lemma insert_key_valid:
  assumes "valid_state t"
  shows "\<exists>t'. insert_key t x = Some t' \<and> valid_state t'
     \<and> set (inorderTraversal t') = insert x (set (inorderTraversal t))
     \<and> (tree_height t' = tree_height t \<or> tree_height t' = tree_height t + 1)
     \<and> (if x \<in> set (inorderTraversal t) then t' = t else tree_size t' = tree_size t + 1)"
proof -
  have v: "validateAVL (tree_root t)" and s: "sorted_wrt (<) (inorder (tree_root t))"
    and n: "tree_size t = int (length (inorder (tree_root t)))"
    using assms by (simp_all add: valid_state_def isValidAVL_def isValidBST_iff inorderTraversal_def inorderHelper_append)
  from insertNode_ok[OF v s, of x "tree_size t"] obtain n' where
    n': "insertNode (tree_root t) x (tree_size t) = Some (n', if x \<in> set (inorder (tree_root t)) then tree_size t - 1 else tree_size t)"
    "validateAVL n'" "sorted_wrt (<) (inorder n')" "set (inorder n') = insert x (set (inorder (tree_root t)))"
    "getHeight n' = getHeight (tree_root t) \<or> getHeight n' = getHeight (tree_root t) + 1"
    "if x \<in> set (inorder (tree_root t)) then n' = tree_root t else length (inorder n') = length (inorder (tree_root t)) + 1"
    by blast
  define t' where "t' = \<lparr>tree_root = n', tree_size = (if x \<in> set (inorder (tree_root t)) then tree_size t - 1 else tree_size t) + 1\<rparr>"
  have 1: "insert_key t x = Some t'"
    by (simp add: insert_key_def n'(1) t'_def)
  have 2: "valid_state t'"
    using n'(2,3,6) n
    by (simp add: valid_state_def isValidAVL_def isValidBST_iff inorderTraversal_def
        inorderHelper_append t'_def split: if_splits)
  have 3: "set (inorderTraversal t') = insert x (set (inorderTraversal t))"
    using n'(4) by (simp add: inorderTraversal_def inorderHelper_append t'_def)
  have 4: "tree_height t' = tree_height t \<or> tree_height t' = tree_height t + 1"
    using n'(5) by (simp add: tree_height_def t'_def)
  have 5: "if x \<in> set (inorderTraversal t) then t' = t else tree_size t' = tree_size t + 1"
    using n'(6) by (simp add: inorderTraversal_def inorderHelper_append t'_def)
  from 1 2 3 4 5 show ?thesis by blast
qed

lemma delete_key_valid:
  assumes "valid_state t"
  shows "\<exists>t'. delete_key t x = Some (t', x \<in> set (inorderTraversal t)) \<and> valid_state t'
     \<and> set (inorderTraversal t') = set (inorderTraversal t) - {x}
     \<and> tree_size t' = (if x \<in> set (inorderTraversal t) then tree_size t - 1 else tree_size t)"
proof -
  have v: "validateAVL (tree_root t)" and s: "sorted_wrt (<) (inorder (tree_root t))"
    and n: "tree_size t = int (length (inorder (tree_root t)))"
    using assms by (simp_all add: valid_state_def isValidAVL_def isValidBST_iff inorderTraversal_def inorderHelper_append)
  from deleteNode_ok[OF v s, of x "tree_size t"] obtain n' where
    n': "deleteNode (tree_root t) x (tree_size t) = Some (n', if x \<in> set (inorder (tree_root t)) then tree_size t - 1 else tree_size t)"
    "validateAVL n'" "sorted_wrt (<) (inorder n')" "set (inorder n') = set (inorder (tree_root t)) - {x}"
    "length (inorder n') = (if x \<in> set (inorder (tree_root t)) then length (inorder (tree_root t)) - 1 else length (inorder (tree_root t)))"
    by blast
  define t' where "t' = \<lparr>tree_root = n', tree_size = (if x \<in> set (inorder (tree_root t)) then tree_size t - 1 else tree_size t)\<rparr>"
  have 1: "delete_key t x = Some (t', x \<in> set (inorderTraversal t))"
    by (simp add: delete_key_def n'(1) t'_def inorderTraversal_def inorderHelper_append)
  have pos: "x \<in> set (inorder (tree_root t)) \<Longrightarrow>
      int (length (inorder (tree_root t)) - 1) = int (length (inorder (tree_root t))) - 1"
    by (cases "inorder (tree_root t)") auto
  have 2: "valid_state t'"
    using n'(2,3,5) n pos
    by (simp add: valid_state_def isValidAVL_def isValidBST_iff inorderTraversal_def
        inorderHelper_append t'_def split: if_splits)
  have 3: "set (inorderTraversal t') = set (inorderTraversal t) - {x}"
    using n'(4) by (simp add: inorderTraversal_def inorderHelper_append t'_def)
  have 4: "tree_size t' = (if x \<in> set (inorderTraversal t) then tree_size t - 1 else tree_size t)"
    by (simp add: inorderTraversal_def inorderHelper_append t'_def)
  from 1 2 3 4 show ?thesis by blast
qed

lemma valid_state_empty: "valid_state empty_tree"
  by (simp add: valid_state_def empty_tree_def isValidBST_def isValidAVL_def inorderTraversal_def)

lemma apply_operation_valid:
  "valid_state t \<Longrightarrow> \<exists>t'. apply_operation t c = Some t' \<and> valid_state t'"
proof (cases c)
  case (Insert x)
  assume "valid_state t"
  from insert_key_valid[OF this, of x] Insert show ?thesis by auto
next
  case (Delete x)
  assume "valid_state t"
  from delete_key_valid[OF this, of x] Delete show ?thesis by auto
qed

lemma run_operations_valid:
  "valid_state t \<Longrightarrow> \<exists>t'. run_operations t cs = Some t' \<and> valid_state t'"
proof (induction cs arbitrary: t)
  case Nil
  then show ?case by simp
next
  case (Cons c cs)
  from apply_operation_valid[OF Cons.prems, of c] obtain t1 where
    "apply_operation t c = Some t1" "valid_state t1" by blast
  with Cons.IH[of t1] show ?case by simp
qed


subsection \<open>Insertion runs, rank query, lowest common ancestor\<close>

lemma run_inserts_valid:
  "valid_state t \<Longrightarrow> \<exists>t'. run_operations t (map Insert xs) = Some t' \<and> valid_state t'
     \<and> set (inorderTraversal t') = set (inorderTraversal t) \<union> set xs"
proof (induction xs arbitrary: t)
  case Nil
  then show ?case by simp
next
  case (Cons x xs)
  from insert_key_valid[OF Cons.prems, of x] obtain t1 where
    t1: "insert_key t x = Some t1" "valid_state t1"
    "set (inorderTraversal t1) = insert x (set (inorderTraversal t))" by blast
  from Cons.IH[OF t1(2)] t1(1,3) show ?case by auto
qed

lemma kthSmallestHelper_done: "kthSmallestHelper t k (c, Some v) = (c, Some v)"
  by (cases t) auto

lemma kthSmallestHelper_spec:
  "(if 1 \<le> k - c \<and> k - c \<le> int (length (inorder t))
    then snd (kthSmallestHelper t k (c, None)) = Some (inorder t ! nat (k - c - 1))
         \<and> k \<le> fst (kthSmallestHelper t k (c, None))
    else kthSmallestHelper t k (c, None) = (c + int (length (inorder t)), None))"
proof (induction t arbitrary: c)
  case Null
  then show ?case by simp
next
  case (AvlNode d l r h)
  let ?nl = "int (length (inorder l))"
  let ?nr = "int (length (inorder r))"
  let ?res1 = "kthSmallestHelper l k (c, None)"
  consider (inl) "1 \<le> k - c \<and> k - c \<le> ?nl" | (here) "k - c = ?nl + 1"
    | (below) "k - c < 1" | (inr) "k - c > ?nl + 1"
    by linarith
  then show ?case
  proof cases
    case inl
    with AvlNode.IH(1)[of c] have
      1: "snd ?res1 = Some (inorder l ! nat (k - c - 1))" and 2: "k \<le> fst ?res1"
      by auto
    obtain c' where res1: "?res1 = (c', Some (inorder l ! nat (k - c - 1)))" and c': "k \<le> c'"
      using 1 2 by (cases ?res1) auto
    have idx: "nat (k - c - 1) < length (inorder l)" using inl by linarith
    have "kthSmallestHelper (AvlNode d l r h) k (c, None) = (c' + 1, Some (inorder l ! nat (k - c - 1)))"
      using res1 c' by (simp add: kthSmallestHelper_done)
    then show ?thesis using inl c' idx by (simp add: nth_append)
  next
    case here
    then have notin: "\<not> (1 \<le> k - c \<and> k - c \<le> ?nl)" by linarith
    with AvlNode.IH(1)[of c] have res1: "?res1 = (c + ?nl, None)" by simp
    have "kthSmallestHelper (AvlNode d l r h) k (c, None) = (k, Some d)"
      using res1 here by simp
    moreover have "nat (k - c - 1) = length (inorder l)" using here by linarith
    ultimately show ?thesis using here by (simp add: nth_append)
  next
    case below
    then have notin: "\<not> (1 \<le> k - c \<and> k - c \<le> ?nl)" by linarith
    with AvlNode.IH(1)[of c] have res1: "?res1 = (c + ?nl, None)" by simp
    have notr: "\<not> (1 \<le> k - (c + ?nl + 1) \<and> k - (c + ?nl + 1) \<le> ?nr)" using below by linarith
    with AvlNode.IH(2)[of "c + ?nl + 1"]
    have "kthSmallestHelper r k (c + ?nl + 1, None) = (c + ?nl + 1 + ?nr, None)" by simp
    then have "kthSmallestHelper (AvlNode d l r h) k (c, None) = (c + ?nl + 1 + ?nr, None)"
      using res1 below by simp
    then show ?thesis using below by simp
  next
    case inr
    then have notin: "\<not> (1 \<le> k - c \<and> k - c \<le> ?nl)" by linarith
    with AvlNode.IH(1)[of c] have res1: "?res1 = (c + ?nl, None)" by simp
    have step: "kthSmallestHelper (AvlNode d l r h) k (c, None) = kthSmallestHelper r k (c + ?nl + 1, None)"
      using res1 inr by simp
    show ?thesis
    proof (cases "k - c \<le> ?nl + 1 + ?nr")
      case True
      then have "1 \<le> k - (c + ?nl + 1) \<and> k - (c + ?nl + 1) \<le> ?nr" using inr by linarith
      with AvlNode.IH(2)[of "c + ?nl + 1"] have
        "snd (kthSmallestHelper r k (c + ?nl + 1, None)) = Some (inorder r ! nat (k - (c + ?nl + 1) - 1))"
        "k \<le> fst (kthSmallestHelper r k (c + ?nl + 1, None))" by auto
      moreover have "nat (k - c - 1) = length (inorder l) + 1 + nat (k - (c + ?nl + 1) - 1)"
        using inr by linarith
      ultimately show ?thesis using step True inr by (simp add: nth_append)
    next
      case False
      then have "\<not> (1 \<le> k - (c + ?nl + 1) \<and> k - (c + ?nl + 1) \<le> ?nr)" by linarith
      with AvlNode.IH(2)[of "c + ?nl + 1"]
      have "kthSmallestHelper r k (c + ?nl + 1, None) = (c + ?nl + 1 + ?nr, None)" by simp
      then show ?thesis using step False by simp
    qed
  qed
qed

lemma findLCA_iff:
  "sorted_wrt (<) (inorder t) \<Longrightarrow>
   (case findLCA t a b of
      Null \<Rightarrow> \<not> (\<exists>k\<in>set (inorder t). min a b \<le> k \<and> k \<le> max a b)
    | AvlNode d l r h \<Rightarrow> d \<in> set (inorder t) \<and> min a b \<le> d \<and> d \<le> max a b)"
proof (induction t)
  case Null
  then show ?case by simp
next
  case (AvlNode d l r h)
  have sl: "sorted_wrt (<) (inorder l)" and sr: "sorted_wrt (<) (inorder r)"
    and ld: "\<forall>y\<in>set (inorder l). y < d" and rd: "\<forall>y\<in>set (inorder r). d < y"
    using AvlNode.prems by (auto simp: sorted_mid)
  consider (left) "a < d \<and> b < d" | (right) "d < a \<and> d < b"
    | (here) "\<not> (a < d \<and> b < d) \<and> \<not> (d < a \<and> d < b)" by blast
  then show ?case
  proof cases
    case left
    then have "findLCA (AvlNode d l r h) a b = findLCA l a b" by (simp add: compare_def)
    moreover have "\<And>k. k \<in> set (inorder r) \<or> k = d \<Longrightarrow> \<not> k \<le> max a b"
      using left rd by (auto simp: max_def)
    ultimately show ?thesis using AvlNode.IH(1)[OF sl]
      by (cases "findLCA l a b") auto
  next
    case right
    then have "findLCA (AvlNode d l r h) a b = findLCA r a b" by (auto simp: compare_def)
    moreover have "\<And>k. k \<in> set (inorder l) \<or> k = d \<Longrightarrow> \<not> min a b \<le> k"
      using right ld by (auto simp: min_def)
    ultimately show ?thesis using AvlNode.IH(2)[OF sr]
      by (cases "findLCA r a b") auto
  next
    case here
    then have "findLCA (AvlNode d l r h) a b = AvlNode d l r h" by (auto simp: compare_def)
    then show ?thesis using here by (auto simp: min_def max_def)
  qed
qed

lemmas run_defs =
  empty_tree_def insert_key_def delete_key_def compare_def inorderTraversal_def
  isValidBST_def isValidAVL_def tree_height_def count_def search_def valid_state_def
  kthSmallest_def lowestCommonAncestor_def

subsection \<open>Every balanced search tree is built by insertions alone\<close>

lemma ins_is_insertNode:
  "validateAVL (ins x t) \<Longrightarrow> x \<notin> set (inorder t) \<Longrightarrow> insertNode t x sz = Some (ins x t, sz)"
proof (induction t)
  case Null
  then show ?case by simp
next
  case (AvlNode d l r h)
  consider (lt) "x < d" | (gt) "d < x" using AvlNode.prems(2) by (cases x d rule: linorder_cases) auto
  then show ?case
  proof cases
    case lt
    have v: "validateAVL (ins x l)" and b: "\<bar>getHeight (ins x l) - getHeight r\<bar> \<le> 1"
      using AvlNode.prems(1) lt by (auto split: if_splits)
    have "insertNode l x sz = Some (ins x l, sz)"
      using AvlNode.IH(1)[OF v] AvlNode.prems(2) by simp
    then show ?thesis
      using lt balance_no_rotation[OF b, of d h] by (simp add: compare_def del: balance.simps)
  next
    case gt
    have v: "validateAVL (ins x r)" and b: "\<bar>getHeight l - getHeight (ins x r)\<bar> \<le> 1"
      using AvlNode.prems(1) gt by (auto split: if_splits)
    have "insertNode r x sz = Some (ins x r, sz)"
      using AvlNode.IH(2)[OF v] AvlNode.prems(2) by simp
    then show ?thesis
      using gt balance_no_rotation[OF b, of d h] not_less_iff_gr_or_eq[of x d]
      by (simp add: compare_def del: balance.simps)
  qed
qed

lemma steps_ok_run:
  "steps_ok xs t \<Longrightarrow>
   run_operations \<lparr>tree_root = t, tree_size = sz\<rparr> (map Insert xs)
     = Some \<lparr>tree_root = fold ins xs t, tree_size = sz + int (length xs)\<rparr>"
proof (induction xs arbitrary: t sz)
  case Nil
  then show ?case by simp
next
  case (Cons x xs)
  have "insertNode t x sz = Some (ins x t, sz)"
    using Cons.prems by (simp add: ins_is_insertNode)
  then have "insert_key \<lparr>tree_root = t, tree_size = sz\<rparr> x = Some \<lparr>tree_root = ins x t, tree_size = sz + 1\<rparr>"
    by (simp add: insert_key_def)
  moreover have "steps_ok xs (ins x t)" using Cons.prems by simp
  ultimately show ?case using Cons.IH[of "ins x t" "sz + 1"] by (simp add: add.assoc)
qed

lemma steps_ok_append:
  "steps_ok (xs @ ys) t \<longleftrightarrow> steps_ok xs t \<and> steps_ok ys (fold ins xs t)"
  by (induction xs arbitrary: t) auto

lemma ins_height_mono: "validateAVL t \<Longrightarrow> getHeight t \<le> getHeight (ins x t)"
proof (induction t)
  case Null
  then show ?case by simp
next
  case (AvlNode d l r h)
  then show ?case by (auto split: if_splits)
qed

lemma fold_ins_height_mono:
  "validateAVL t \<Longrightarrow> steps_ok xs t \<Longrightarrow> getHeight t \<le> getHeight (fold ins xs t)"
proof (induction xs arbitrary: t)
  case Nil
  then show ?case by simp
next
  case (Cons x xs)
  have "getHeight t \<le> getHeight (ins x t)" using Cons.prems(1) by (rule ins_height_mono)
  moreover have "getHeight (ins x t) \<le> getHeight (fold ins xs (ins x t))"
    using Cons.IH[of "ins x t"] Cons.prems(2) by simp
  ultimately show ?case by simp
qed

lemma fold_ins_valid:
  "validateAVL t \<Longrightarrow> steps_ok xs t \<Longrightarrow> validateAVL (fold ins xs t)"
  by (induction xs arbitrary: t) auto

lemma steps_left:
  assumes "steps_ok xs l" "validateAVL l" "validateAVL r"
    and "\<forall>x\<in>set xs. x < d" "\<forall>y\<in>set (inorder r). d < y"
    and "\<bar>getHeight l - getHeight r\<bar> \<le> 1" "\<bar>getHeight (fold ins xs l) - getHeight r\<bar> \<le> 1"
    and "h = 1 + max (getHeight l) (getHeight r)"
  shows "steps_ok xs (AvlNode d l r h)
     \<and> fold ins xs (AvlNode d l r h)
         = AvlNode d (fold ins xs l) r (1 + max (getHeight (fold ins xs l)) (getHeight r))"
  using assms
proof (induction xs arbitrary: l h)
  case Nil
  then show ?case by simp
next
  case (Cons x xs)
  let ?l' = "ins x l"
  have xd: "x < d" using Cons.prems(4) by simp
  have v': "validateAVL ?l'" and ok': "steps_ok xs ?l'" and xl: "x \<notin> set (inorder l)"
    using Cons.prems(1) by simp_all
  have lo: "getHeight l \<le> getHeight ?l'" using Cons.prems(2) by (rule ins_height_mono)
  have hi: "getHeight ?l' \<le> getHeight (fold ins xs ?l')"
    using fold_ins_height_mono[OF v' ok'] .
  have b': "\<bar>getHeight ?l' - getHeight r\<bar> \<le> 1"
    using lo hi Cons.prems(6,7) by simp
  have xr: "x \<notin> set (inorder r)" using xd Cons.prems(5) by auto
  have step: "ins x (AvlNode d l r h) = AvlNode d ?l' r (1 + max (getHeight ?l') (getHeight r))"
    using xd by simp
  have IH: "steps_ok xs (AvlNode d ?l' r (1 + max (getHeight ?l') (getHeight r)))
     \<and> fold ins xs (AvlNode d ?l' r (1 + max (getHeight ?l') (getHeight r)))
         = AvlNode d (fold ins xs ?l') r (1 + max (getHeight (fold ins xs ?l')) (getHeight r))"
    using Cons.IH[OF ok' v' Cons.prems(3) _ Cons.prems(5) b' _ refl] Cons.prems(4,7) by simp
  have "x \<notin> set (inorder (AvlNode d l r h))" using xl xr xd by auto
  moreover have "validateAVL (ins x (AvlNode d l r h))"
    unfolding step using v' Cons.prems(3) b' by simp
  ultimately show ?case using IH unfolding steps_ok.simps fold_simps step by simp
qed

lemma steps_right:
  assumes "steps_ok xs r" "validateAVL l" "validateAVL r"
    and "\<forall>x\<in>set xs. d < x" "\<forall>y\<in>set (inorder l). y < d"
    and "\<bar>getHeight l - getHeight r\<bar> \<le> 1" "\<bar>getHeight l - getHeight (fold ins xs r)\<bar> \<le> 1"
    and "h = 1 + max (getHeight l) (getHeight r)"
  shows "steps_ok xs (AvlNode d l r h)
     \<and> fold ins xs (AvlNode d l r h)
         = AvlNode d l (fold ins xs r) (1 + max (getHeight l) (getHeight (fold ins xs r)))"
  using assms
proof (induction xs arbitrary: r h)
  case Nil
  then show ?case by simp
next
  case (Cons x xs)
  let ?r' = "ins x r"
  have xd: "d < x" using Cons.prems(4) by simp
  have v': "validateAVL ?r'" and ok': "steps_ok xs ?r'" and xr: "x \<notin> set (inorder r)"
    using Cons.prems(1) by simp_all
  have lo: "getHeight r \<le> getHeight ?r'" using Cons.prems(3) by (rule ins_height_mono)
  have hi: "getHeight ?r' \<le> getHeight (fold ins xs ?r')"
    using fold_ins_height_mono[OF v' ok'] .
  have b': "\<bar>getHeight l - getHeight ?r'\<bar> \<le> 1"
    using lo hi Cons.prems(6,7) by simp
  have xl: "x \<notin> set (inorder l)" using xd Cons.prems(5) by auto
  have step: "ins x (AvlNode d l r h) = AvlNode d l ?r' (1 + max (getHeight l) (getHeight ?r'))"
    using xd not_less_iff_gr_or_eq[of x d] by simp
  have IH: "steps_ok xs (AvlNode d l ?r' (1 + max (getHeight l) (getHeight ?r')))
     \<and> fold ins xs (AvlNode d l ?r' (1 + max (getHeight l) (getHeight ?r')))
         = AvlNode d l (fold ins xs ?r') (1 + max (getHeight l) (getHeight (fold ins xs ?r')))"
    using Cons.IH[OF ok' Cons.prems(2) v' _ Cons.prems(5) b' _ refl] Cons.prems(4,7) by simp
  have "x \<notin> set (inorder (AvlNode d l r h))" using xl xr xd by auto
  moreover have "validateAVL (ins x (AvlNode d l r h))"
    unfolding step using v' Cons.prems(2) b' by simp
  ultimately show ?case using IH unfolding steps_ok.simps fold_simps step by simp
qed

lemma trunc_valid:
  "validateAVL t \<Longrightarrow>
   validateAVL (trunc j t) \<and> getHeight (trunc j t) = min (int j - 1) (getHeight t)"
proof (induction j t rule: trunc.induct)
  case (1 t)
  then show ?case using validateAVL_height_ge[of t] by simp
next
  case (2 j)
  then show ?case by simp
next
  case (3 j d l r h)
  have vl: "validateAVL l" and vr: "validateAVL r"
    and bal: "\<bar>getHeight l - getHeight r\<bar> \<le> 1" and h: "h = 1 + max (getHeight l) (getHeight r)"
    using "3.prems" by (auto split: if_splits)
  from "3.IH"(1)[OF vl] have l: "validateAVL (trunc j l)"
    "getHeight (trunc j l) = min (int j - 1) (getHeight l)" by simp_all
  from "3.IH"(2)[OF vr] have r: "validateAVL (trunc j r)"
    "getHeight (trunc j r) = min (int j - 1) (getHeight r)" by simp_all
  have "\<bar>getHeight (trunc j l) - getHeight (trunc j r)\<bar> \<le> 1"
    unfolding l(2) r(2) using bal by linarith
  moreover have "1 + max (getHeight (trunc j l)) (getHeight (trunc j r)) = min (int (Suc j) - 1) h"
    unfolding l(2) r(2) h by linarith
  ultimately show ?case using l(1) r(1) by simp
qed

lemma trunc_keys: "set (inorder (trunc j t)) \<subseteq> set (inorder t)"
  by (induction j t rule: trunc.induct) auto

lemma level_keys: "set (level j t) \<subseteq> set (inorder t)"
  by (induction j t rule: level.induct) auto

lemma trunc_full: "validateAVL t \<Longrightarrow> getHeight t < int j \<Longrightarrow> trunc j t = t"
proof (induction j t rule: trunc.induct)
  case (1 t)
  then show ?case using validateAVL_height_Null[of t] by simp
next
  case (2 j)
  then show ?case by simp
next
  case (3 j d l r h)
  have vl: "validateAVL l" and vr: "validateAVL r"
    and h: "h = 1 + max (getHeight l) (getHeight r)"
    using "3.prems"(1) by (auto split: if_splits)
  have "getHeight l < int j" "getHeight r < int j" using "3.prems"(2) h by auto
  with "3.IH" vl vr h show ?case by simp
qed

lemma level_step:
  "validateAVL t \<Longrightarrow> sorted_wrt (<) (inorder t) \<Longrightarrow>
   steps_ok (level j t) (trunc j t) \<and> fold ins (level j t) (trunc j t) = trunc (Suc j) t"
proof (induction t arbitrary: j)
  case Null
  then show ?case by (cases j) simp_all
next
  case (AvlNode d l r h)
  have vl: "validateAVL l" and vr: "validateAVL r"
    and bal: "\<bar>getHeight l - getHeight r\<bar> \<le> 1"
    using AvlNode.prems(1) by (auto split: if_splits)
  have sl: "sorted_wrt (<) (inorder l)" and sr: "sorted_wrt (<) (inorder r)"
    and ld: "\<forall>y\<in>set (inorder l). y < d" and rd: "\<forall>y\<in>set (inorder r). d < y"
    using AvlNode.prems(2) by (auto simp: sorted_mid)
  show ?case
  proof (cases j)
    case 0
    then show ?thesis by simp
  next
    case (Suc i)
    let ?l0 = "trunc i l" and ?r0 = "trunc i r" and ?l1 = "trunc (Suc i) l" and ?r1 = "trunc (Suc i) r"
    let ?xs = "level i l" and ?ys = "level i r"
    from AvlNode.IH(1)[OF vl sl, of i] have L: "steps_ok ?xs ?l0" "fold ins ?xs ?l0 = ?l1" by simp_all
    from AvlNode.IH(2)[OF vr sr, of i] have R: "steps_ok ?ys ?r0" "fold ins ?ys ?r0 = ?r1" by simp_all
    have hl0: "validateAVL ?l0" "getHeight ?l0 = min (int i - 1) (getHeight l)"
      and hr0: "validateAVL ?r0" "getHeight ?r0 = min (int i - 1) (getHeight r)"
      and hl1: "validateAVL ?l1" "getHeight ?l1 = min (int i) (getHeight l)"
      and hr1: "validateAVL ?r1" "getHeight ?r1 = min (int i) (getHeight r)"
      using trunc_valid[OF vl, of i] trunc_valid[OF vr, of i]
        trunc_valid[OF vl, of "Suc i"] trunc_valid[OF vr, of "Suc i"] by simp_all
    have xs_lt: "\<forall>x\<in>set ?xs. x < d" using level_keys[of i l] ld by auto
    have ys_gt: "\<forall>x\<in>set ?ys. d < x" using level_keys[of i r] rd by auto
    have r0_gt: "\<forall>y\<in>set (inorder ?r0). d < y" using trunc_keys[of i r] rd by auto
    have l1_lt: "\<forall>y\<in>set (inorder ?l1). y < d" using trunc_keys[of "Suc i" l] ld by auto
    have b00: "\<bar>getHeight ?l0 - getHeight ?r0\<bar> \<le> 1" unfolding hl0(2) hr0(2) using bal by linarith
    have b10: "\<bar>getHeight ?l1 - getHeight ?r0\<bar> \<le> 1" unfolding hl1(2) hr0(2)
      using bal validateAVL_height_ge[OF vl] validateAVL_height_ge[OF vr] by linarith
    have b11: "\<bar>getHeight ?l1 - getHeight ?r1\<bar> \<le> 1" unfolding hl1(2) hr1(2) using bal by linarith
    let ?h0 = "1 + max (getHeight ?l0) (getHeight ?r0)"
    let ?h1 = "1 + max (getHeight ?l1) (getHeight ?r0)"
    have t0: "trunc j (AvlNode d l r h) = AvlNode d ?l0 ?r0 ?h0" using Suc by simp
    from steps_left[OF L(1) hl0(1) hr0(1) xs_lt r0_gt b00 _ refl] b10 L(2)
    have P1: "steps_ok ?xs (AvlNode d ?l0 ?r0 ?h0)"
      "fold ins ?xs (AvlNode d ?l0 ?r0 ?h0) = AvlNode d ?l1 ?r0 ?h1" by simp_all
    from steps_right[OF R(1) hl1(1) hr0(1) ys_gt l1_lt b10 _ refl] b11 R(2)
    have P2: "steps_ok ?ys (AvlNode d ?l1 ?r0 ?h1)"
      "fold ins ?ys (AvlNode d ?l1 ?r0 ?h1)
         = AvlNode d ?l1 ?r1 (1 + max (getHeight ?l1) (getHeight ?r1))" by simp_all
    have "level j (AvlNode d l r h) = ?xs @ ?ys" using Suc by simp
    moreover have "trunc (Suc j) (AvlNode d l r h)
        = AvlNode d ?l1 ?r1 (1 + max (getHeight ?l1) (getHeight ?r1))" using Suc by simp
    ultimately show ?thesis
      unfolding t0 using P1 P2 by (simp add: steps_ok_append)
  qed
qed

lemma levels_upto_build:
  "validateAVL t \<Longrightarrow> sorted_wrt (<) (inorder t) \<Longrightarrow>
   steps_ok (levels_upto n t) Null \<and> fold ins (levels_upto n t) Null = trunc n t"
proof (induction n)
  case 0
  then show ?case by (simp add: levels_upto_def)
next
  case (Suc n)
  have "levels_upto (Suc n) t = levels_upto n t @ level n t" by (simp add: levels_upto_def)
  with Suc level_step[OF Suc.prems, of n] show ?case by (simp add: steps_ok_append)
qed

lemma set_inorder_ins: "set (inorder (ins x t)) = insert x (set (inorder t))"
  by (induction t) auto

lemma steps_ok_disjoint: "steps_ok xs t \<Longrightarrow> set xs \<inter> set (inorder t) = {}"
proof (induction xs arbitrary: t)
  case Nil
  then show ?case by simp
next
  case (Cons x xs)
  from Cons.prems have "steps_ok xs (ins x t)" and "x \<notin> set (inorder t)" by simp_all
  with Cons.IH[of "ins x t"] show ?case by (auto simp: set_inorder_ins)
qed

lemma steps_ok_distinct: "steps_ok xs t \<Longrightarrow> distinct xs"
proof (induction xs arbitrary: t)
  case Nil
  then show ?case by simp
next
  case (Cons x xs)
  from Cons.prems have ok: "steps_ok xs (ins x t)" by simp
  from steps_ok_disjoint[OF ok] Cons.IH[OF ok] show ?case by (auto simp: set_inorder_ins)
qed

text \<open>Every valid AVL search tree is reached from the empty tree by insertions alone.\<close>

lemma avl_reachable_by_inserts:
  assumes "validateAVL t" "sorted_wrt (<) (inorder t)"
  shows "\<exists>xs. distinct xs \<and> length xs = length (inorder t)
     \<and> run_operations empty_tree (map Insert xs)
         = Some \<lparr>tree_root = t, tree_size = int (length xs)\<rparr>"
proof -
  define n where "n = nat (getHeight t + 1)"
  define xs where "xs = levels_upto n t"
  have "getHeight t < int n" using validateAVL_height_ge[OF assms(1)] by (simp add: n_def)
  then have full: "trunc n t = t" using assms(1) by (simp add: trunc_full)
  from levels_upto_build[OF assms, of n] full
  have ok: "steps_ok xs Null" and f: "fold ins xs Null = t" by (simp_all add: xs_def)
  from steps_ok_run[OF ok, of 0] f
  have run: "run_operations empty_tree (map Insert xs)
      = Some \<lparr>tree_root = t, tree_size = int (length xs)\<rparr>" by (simp add: empty_tree_def)
  from run_operations_valid[OF valid_state_empty, of "map Insert xs"] run
  have "valid_state \<lparr>tree_root = t, tree_size = int (length xs)\<rparr>" by auto
  then have "length xs = length (inorder t)"
    by (simp add: valid_state_def inorderTraversal_def inorderHelper_append)
  with run steps_ok_distinct[OF ok] show ?thesis by blast
qed

subsection \<open>Sparse trees and the height of insert-only trees\<close>

lemma sparse_tree_props:
  "validateAVL (sparse_tree k lo) \<and> getHeight (sparse_tree k lo) = int k - 1
   \<and> length (inorder (sparse_tree k lo)) = min_nodes k
   \<and> sorted_wrt (<) (inorder (sparse_tree k lo))
   \<and> (\<forall>x\<in>set (inorder (sparse_tree k lo)). lo \<le> x \<and> x < lo + int (min_nodes k))"
proof (induction k lo rule: sparse_tree.induct)
  case (1 lo)
  then show ?case by simp
next
  case (2 lo)
  then show ?case by simp
next
  case (3 k lo)
  let ?m = "lo + int (min_nodes (Suc k))"
  from "3.IH"(1) have L: "validateAVL (sparse_tree (Suc k) lo)"
    "getHeight (sparse_tree (Suc k) lo) = int k"
    "length (inorder (sparse_tree (Suc k) lo)) = min_nodes (Suc k)"
    "sorted_wrt (<) (inorder (sparse_tree (Suc k) lo))"
    "\<forall>x\<in>set (inorder (sparse_tree (Suc k) lo)). lo \<le> x \<and> x < ?m" by simp_all
  from "3.IH"(2) have R: "validateAVL (sparse_tree k (?m + 1))"
    "getHeight (sparse_tree k (?m + 1)) = int k - 1"
    "length (inorder (sparse_tree k (?m + 1))) = min_nodes k"
    "sorted_wrt (<) (inorder (sparse_tree k (?m + 1)))"
    "\<forall>x\<in>set (inorder (sparse_tree k (?m + 1))). ?m + 1 \<le> x \<and> x < ?m + 1 + int (min_nodes k)"
    by simp_all
  have "validateAVL (sparse_tree (Suc (Suc k)) lo)" using L(1,2) R(1,2) by simp
  moreover have "getHeight (sparse_tree (Suc (Suc k)) lo) = int (Suc (Suc k)) - 1" by simp
  moreover have "length (inorder (sparse_tree (Suc (Suc k)) lo)) = min_nodes (Suc (Suc k))"
    using L(3) R(3) by simp
  moreover have "sorted_wrt (<) (inorder (sparse_tree (Suc (Suc k)) lo))"
    using L(4,5) R(4,5) by (simp add: sorted_mid) force
  moreover have "\<forall>x\<in>set (inorder (sparse_tree (Suc (Suc k)) lo)).
      lo \<le> x \<and> x < lo + int (min_nodes (Suc (Suc k)))"
    using L(5) R(5) by (simp) force
  ultimately show ?case by blast
qed

lemma min_nodes_upper: "real (min_nodes k) + 1 \<le> (5 / 4) * (16181 / 10000) ^ k"
proof (induction k rule: min_nodes.induct)
  case 1
  then show ?case by simp
next
  case 2
  then show ?case by simp
next
  case (3 k)
  let ?r = "16181 / 10000 :: real"
  have sq: "?r + 1 \<le> ?r ^ 2" by (simp add: power2_eq_square)
  have "real (min_nodes (Suc (Suc k))) + 1 = (real (min_nodes (Suc k)) + 1) + (real (min_nodes k) + 1)"
    by simp
  also have "\<dots> \<le> (5 / 4) * ?r ^ Suc k + (5 / 4) * ?r ^ k" using 3 by linarith
  also have "\<dots> = (5 / 4) * ?r ^ k * (?r + 1)" by (simp add: algebra_simps)
  also have "\<dots> \<le> (5 / 4) * ?r ^ k * ?r ^ 2"
    using sq by (intro mult_left_mono) simp_all
  also have "\<dots> = (5 / 4) * ?r ^ Suc (Suc k)" by (simp add: power2_eq_square)
  finally show ?case .
qed

lemma power_chain_bound:
  fixes r c x :: real
  assumes ra: "r ^ a \<le> c * 2 ^ b" and cm: "c ^ m \<le> 1 / 2" and r0: "0 \<le> r" and c0: "0 \<le> c"
    and x: "x + 1 \<le> (5 / 4) * r ^ (a * m * 2)" and bm: "0 < b * m"
  shows "x + 2 < 2 ^ (b * m * 2)"
proof -
  let ?P = "(2::real) ^ (b * m)"
  have "(2::real) ^ 1 \<le> ?P" using bm by (intro power_increasing) simp_all
  then have P1: "2 \<le> ?P" by simp
  have "r ^ (a * m) = (r ^ a) ^ m" by (simp add: power_mult)
  also have "\<dots> \<le> (c * 2 ^ b) ^ m" using ra r0 by (intro power_mono) simp_all
  also have "\<dots> = c ^ m * ?P" by (simp add: power_mult_distrib power_mult)
  also have "\<dots> \<le> (1 / 2) * ?P" using cm by (intro mult_right_mono) simp_all
  finally have 1: "r ^ (a * m) \<le> ?P / 2" by simp
  have "r ^ (a * m * 2) = (r ^ (a * m)) ^ 2" by (simp add: power_mult)
  also have "\<dots> \<le> (?P / 2) ^ 2" using 1 r0 by (intro power_mono) simp_all
  also have "\<dots> = ?P * ?P / 4" by (simp add: power2_eq_square)
  finally have 2: "r ^ (a * m * 2) \<le> ?P * ?P / 4" .
  have PP: "(2::real) ^ (b * m * 2) = ?P * ?P" by (simp add: power_mult power2_eq_square)
  have "2 * 2 \<le> ?P * ?P" using P1 by (intro mult_mono) simp_all
  then show ?thesis unfolding PP using x 2 by linarith
qed

lemma log2_less_of_less_power:
  assumes "0 < x" "x < 2 ^ n"
  shows "log 2 x < real n"
proof -
  have "log 2 x < log 2 (2 ^ n)" using assms by (subst log_less_cancel_iff) simp_all
  also have "\<dots> = real n" by (simp add: log_nat_power)
  finally show ?thesis .
qed

lemma sparse_count_below_power:
  "real (min_nodes (36 * 200 * 2)) + 2 < 2 ^ (25 * 200 * 2)"
proof -
  have a: "(16181 / 10000 :: real) ^ 36 \<le> (9965 / 10000) * 2 ^ 25" by (simp add: power_divide)
  have b1: "(9965 / 10000 :: real) ^ 20 \<le> 9323 / 10000" by (simp add: power_divide)
  have b2: "(9323 / 10000 :: real) ^ 10 \<le> 1 / 2" by (simp add: power_divide)
  have "(9965 / 10000 :: real) ^ (20 * 10) = ((9965 / 10000) ^ 20) ^ 10"
    by (rule power_mult)
  also have "\<dots> \<le> (9323 / 10000) ^ 10" using b1 by (intro power_mono) simp_all
  finally have "(9965 / 10000 :: real) ^ (20 * 10) \<le> 1 / 2" using b2 by linarith
  moreover have "(20 * 10 :: nat) = 200" by simp
  ultimately have b: "(9965 / 10000 :: real) ^ 200 \<le> 1 / 2" by (simp only:)
  show ?thesis
    by (rule power_chain_bound[OF a b _ _ min_nodes_upper]) simp_all
qed

lemma min_nodes_Suc: "min_nodes k \<le> min_nodes (Suc k)"
  by (induction k rule: min_nodes.induct) simp_all

lemma min_nodes_mono: "i \<le> j \<Longrightarrow> min_nodes i \<le> min_nodes j"
  by (rule lift_Suc_mono_le[of min_nodes]) (simp_all add: min_nodes_Suc)

lemma avl_min_nodes: "validateAVL t \<Longrightarrow> min_nodes (nat (getHeight t + 1)) \<le> length (inorder t)"
proof (induction t)
  case Null
  then show ?case by simp
next
  case (AvlNode d l r h)
  have vl: "validateAVL l" and vr: "validateAVL r"
    and bal: "\<bar>getHeight l - getHeight r\<bar> \<le> 1" and h: "h = 1 + max (getHeight l) (getHeight r)"
    using AvlNode.prems by (auto split: if_splits)
  define a where "a = nat (getHeight l + 1)"
  define b where "b = nat (getHeight r + 1)"
  have ha: "int a = getHeight l + 1" and hb: "int b = getHeight r + 1"
    using validateAVL_height_ge[OF vl] validateAVL_height_ge[OF vr] by (simp_all add: a_def b_def)
  have ab: "a \<le> Suc b" "b \<le> Suc a" using bal ha hb by linarith+
  have k: "nat (getHeight (AvlNode d l r h) + 1) = Suc (max a b)" using h ha hb by simp
  have IH: "min_nodes a \<le> length (inorder l)" "min_nodes b \<le> length (inorder r)"
    using AvlNode.IH(1)[OF vl] AvlNode.IH(2)[OF vr] by (simp_all add: a_def b_def)
  have "min_nodes (Suc (max a b)) \<le> min_nodes a + min_nodes b + 1"
  proof (cases "max a b")
    case 0
    then show ?thesis by simp
  next
    case (Suc m)
    then consider "a = Suc m" "m \<le> b" | "b = Suc m" "m \<le> a" using ab by (auto simp: max_def split: if_splits)
    then show ?thesis
    proof cases
      case 1
      then show ?thesis using Suc min_nodes_mono[of m b] by simp
    next
      case 2
      then show ?thesis using Suc min_nodes_mono[of m a] by simp
    qed
  qed
  then show ?case unfolding k using IH by simp
qed

lemma min_nodes_lower: "(1618 / 1000) ^ k \<le> real (min_nodes k) + 1"
proof (induction k rule: min_nodes.induct)
  case 1
  then show ?case by simp
next
  case 2
  then show ?case by simp
next
  case (3 k)
  let ?r = "1618 / 1000 :: real"
  have sq: "?r ^ 2 \<le> ?r + 1" by (simp add: power2_eq_square)
  have "?r ^ Suc (Suc k) = ?r ^ k * ?r ^ 2" by (simp add: power2_eq_square)
  also have "\<dots> \<le> ?r ^ k * (?r + 1)" using sq by (intro mult_left_mono) simp_all
  also have "\<dots> = ?r ^ Suc k + ?r ^ k" by (simp add: algebra_simps)
  also have "\<dots> \<le> (real (min_nodes (Suc k)) + 1) + (real (min_nodes k) + 1)" using 3 by linarith
  also have "\<dots> = real (min_nodes (Suc (Suc k))) + 1" by simp
  finally show ?case .
qed

lemma min_nodes_lower_scaled:
  "1 \<le> k \<Longrightarrow> (8 / 7) * (1618 / 1000) ^ k \<le> real (min_nodes k) + 1"
proof (induction k rule: min_nodes.induct)
  case 1
  then show ?case by simp
next
  case 2
  then show ?case by simp
next
  case (3 k)
  let ?r = "1618 / 1000 :: real"
  show ?case
  proof (cases k)
    case 0
    then show ?thesis by (simp add: power2_eq_square)
  next
    case (Suc j)
    have sq: "?r ^ 2 \<le> ?r + 1" by (simp add: power2_eq_square)
    have "(8 / 7) * ?r ^ Suc (Suc k) = (8 / 7) * ?r ^ k * ?r ^ 2" by (simp add: power2_eq_square)
    also have "\<dots> \<le> (8 / 7) * ?r ^ k * (?r + 1)" using sq by (intro mult_left_mono) simp_all
    also have "\<dots> = (8 / 7) * ?r ^ Suc k + (8 / 7) * ?r ^ k" by (simp add: algebra_simps)
    also have "\<dots> \<le> (real (min_nodes (Suc k)) + 1) + (real (min_nodes k) + 1)"
      using "3.IH" Suc by simp
    also have "\<dots> = real (min_nodes (Suc (Suc k))) + 1" by simp
    finally show ?thesis .
  qed
qed

lemma log2_ge_of_power_le:
  fixes x :: real
  assumes "2 ^ a \<le> x ^ b" "0 < x" "0 < b"
  shows "real a / real b \<le> log 2 x"
proof -
  have "log 2 (2 ^ a) \<le> log 2 (x ^ b)"
    using assms by (subst log_le_cancel_iff) simp_all
  then have "real a \<le> real b * log 2 x" using assms(2) by (simp add: log_nat_power)
  then show ?thesis using assms(3) by (simp add: divide_le_eq mult.commute)
qed

lemma log2_golden_lower: "20 / 29 \<le> log 2 (1618 / 1000 :: real)" "34 / 49 \<le> log 2 (1618 / 1000 :: real)"
proof -
  have c1: "(2::real) ^ 20 \<le> (1618 / 1000) ^ 29" by (simp add: power_divide)
  have c2: "(2::real) ^ 34 \<le> (1618 / 1000) ^ 49" by (simp add: power_divide)
  from log2_ge_of_power_le[OF c1] show "20 / 29 \<le> log 2 (1618 / 1000 :: real)" by simp
  from log2_ge_of_power_le[OF c2] show "34 / 49 \<le> log 2 (1618 / 1000 :: real)" by simp
qed

lemma log2_8_7_lower: "19 / 100 \<le> log 2 (8 / 7 :: real)"
proof -
  have c3: "(2::real) ^ 19 \<le> (8 / 7) ^ 100" by (simp add: power_divide)
  from log2_ge_of_power_le[OF c3] show ?thesis by simp
qed

lemma log2_scaled_power:
  fixes c r :: real
  assumes "0 < c" "0 < r"
  shows "log 2 (c * r ^ k) = log 2 c + real k * log 2 r"
  using assms by (simp add: log_mult log_nat_power)

lemma avl_height_log_bounds:
  assumes "validateAVL t"
  defines "n \<equiv> real (length (inorder t))"
  shows "real_of_int (getHeight t) \<le> 1.45 * log 2 (n + 2) - 1"
    and "n + 2 \<le> 2 ^ 64 \<Longrightarrow> real_of_int (getHeight t) \<le> 1.44 * log 2 (n + 2) - 1"
proof -
  define k where "k = nat (getHeight t + 1)"
  let ?r = "1618 / 1000 :: real"
  let ?L = "log 2 (n + 2)"
  have hk: "real_of_int (getHeight t) = real k - 1"
    using validateAVL_height_ge[OF assms(1)] by (simp add: k_def)
  have cnt: "real (min_nodes k) + 1 \<le> n + 1"
    using avl_min_nodes[OF assms(1)] by (simp add: k_def n_def)
  have n0: "0 \<le> n" by (simp add: n_def)
  have d145: "(1.45::real) = 29 / 20" and d144: "(1.44::real) = 36 / 25" by simp_all
  have "?r ^ k \<le> n + 2" using min_nodes_lower[of k] cnt by linarith
  then have "log 2 (?r ^ k) \<le> ?L" using n0 by (subst log_le_cancel_iff) simp_all
  then have L1: "real k * log 2 ?r \<le> ?L" by (simp add: log_nat_power)
  have "real k * (20 / 29) \<le> real k * log 2 ?r"
    using log2_golden_lower(1) by (intro mult_left_mono) simp_all
  with L1 show "real_of_int (getHeight t) \<le> 1.45 * ?L - 1" unfolding hk d145 by linarith
  assume dom: "n + 2 \<le> 2 ^ 64"
  have "?L \<le> log 2 (2 ^ 64)" using dom n0 by (subst log_le_cancel_iff) simp_all
  also have "\<dots> = real 64" by (subst log_nat_power) simp_all
  finally have L64: "?L \<le> 64" by simp
  have k34: "real k * (34 / 49) \<le> real k * log 2 ?r"
    using log2_golden_lower(2) by (intro mult_left_mono) simp_all
  show "real_of_int (getHeight t) \<le> 1.44 * ?L - 1"
  proof (cases "k = 0")
    case True
    have "log 2 1 \<le> ?L" using n0 by (subst log_le_cancel_iff) simp_all
    then show ?thesis unfolding hk d144 using True by simp
  next
    case False
    then have "1 \<le> k" by simp
    from min_nodes_lower_scaled[OF this] cnt have "(8 / 7) * ?r ^ k \<le> n + 2" by linarith
    then have "log 2 ((8 / 7) * ?r ^ k) \<le> ?L" using n0 by (subst log_le_cancel_iff) simp_all
    moreover have "log 2 ((8 / 7) * ?r ^ k) = log 2 (8 / 7) + real k * log 2 ?r"
      by (rule log2_scaled_power) simp_all
    ultimately have "log 2 (8 / 7) + real k * log 2 ?r \<le> ?L" by (simp only:)
    with log2_8_7_lower k34 L1 L64 show ?thesis unfolding hk d144 by linarith
  qed
qed

lemma insert_run_bounds:
  "\<exists>t. run_operations empty_tree (map Insert xs) = Some t
      \<and> count t = int (card (set xs))
      \<and> real_of_int (tree_height t) \<le> 1.45 * log 2 (real_of_int (count t) + 2) - 1
      \<and> (real_of_int (count t) + 2 \<le> 2 ^ 64 \<longrightarrow>
           real_of_int (tree_height t) \<le> 1.44 * log 2 (real_of_int (count t) + 2) - 1)"
proof -
  from run_inserts_valid[OF valid_state_empty, of xs] obtain t where
    t: "run_operations empty_tree (map Insert xs) = Some t" "valid_state t"
    "set (inorderTraversal t) = set (inorderTraversal (empty_tree :: 'a AvlBinarySearchTree)) \<union> set xs"
    by blast
  have v: "validateAVL (tree_root t)" and n: "tree_size t = int (length (inorder (tree_root t)))"
    and s: "sorted_wrt (<) (inorder (tree_root t))"
    using t(2) by (simp_all add: valid_state_def isValidAVL_def isValidBST_iff inorderTraversal_def
        inorderHelper_append)
  have "set (inorder (tree_root t)) = set xs"
    using t(3) by (simp add: empty_tree_def inorderTraversal_def inorderHelper_append)
  moreover have "distinct (inorder (tree_root t))" using s by (simp add: strict_sorted_iff)
  ultimately have c: "length (inorder (tree_root t)) = card (set xs)"
    using distinct_card[of "inorder (tree_root t)"] by simp
  have r: "real_of_int (count t) = real (length (inorder (tree_root t)))"
    using n by (simp add: count_def)
  show ?thesis
    using t(1) n c avl_height_log_bounds[OF v]
    unfolding r by (intro exI[of _ t]) (simp add: count_def tree_height_def)
qed

section \<open>The claims\<close>

text \<open>
  Claim C1. Every finite sequence of \<open>insert\<close> and \<open>delete\<close> calls on the empty tree
  runs without an exception, and after each call (that is, after every prefix \<open>take n cs\<close>
  of the sequence) \<open>isValidBST()\<close> and \<open>isValidAVL()\<close> return true and
  \<open>inorderTraversal()\<close> is strictly ascending, hence free of duplicates.
\<close>

theorem operations_keep_invariants:
  "\<exists>t. run_operations empty_tree (take n cs) = Some t \<and> isValidBST t \<and> isValidAVL t
      \<and> sorted_wrt (<) (inorderTraversal t) \<and> distinct (inorderTraversal t)"
proof -
  from run_operations_valid[OF valid_state_empty, of "take n cs"] obtain t where
    t: "run_operations empty_tree (take n cs) = Some t" "valid_state t" by blast
  have "sorted_wrt (<) (inorderTraversal t)"
    using t(2) by (simp add: valid_state_def isValidBST_iff)
  then show ?thesis using t by (auto simp: valid_state_def strict_sorted_iff)
qed

theorem operations_keep_invariants_witness:
  "run_operations empty_tree (take 3 [Insert (3::int), Insert 1, Delete 3, Insert 7])
     = Some \<lparr>tree_root = AvlNode 1 Null Null 0, tree_size = 1\<rparr>
   \<and> isValidBST \<lparr>tree_root = AvlNode (1::int) Null Null 0, tree_size = 1\<rparr>
   \<and> isValidAVL \<lparr>tree_root = AvlNode (1::int) Null Null 0, tree_size = 1\<rparr>
   \<and> inorderTraversal \<lparr>tree_root = AvlNode (1::int) Null Null 0, tree_size = 1\<rparr> = [1]"
  using operations_keep_invariants[of 3 "[Insert (3::int), Insert 1, Delete 3, Insert 7]"]
  by (simp add: run_defs)

text \<open>
  Claim C2. Let the two children of a node pass \<open>validateAVL\<close> (balanced, cached heights
  correct) and let the node's balance factor lie in \<open>[-2, 2]\<close>; its own cached height
  \<open>h\<close> is arbitrary. Then \<open>balance\<close> returns a node whose cached height is
  one more than the larger child height, whose balance factor is -1, 0 or 1, which passes
  \<open>validateAVL\<close> as a whole, and whose in-order key sequence (hence key set) is the
  one of the input.
\<close>

theorem balance_contract:
  assumes "validateAVL l" "validateAVL r"
    and "getBalanceFactor (AvlNode d l r h) = Some bf" "- 2 \<le> bf" "bf \<le> 2"
  shows "\<exists>t. balance (AvlNode d l r h) = Some t \<and> t \<noteq> Null
     \<and> height t = 1 + max (getHeight (left t)) (getHeight (right t))
     \<and> getHeight (left t) - getHeight (right t) \<in> {- 1, 0, 1}
     \<and> validateAVL t
     \<and> inorderHelper t [] = inorderHelper (AvlNode d l r h) []
     \<and> set (inorderHelper t []) = set (inorderHelper (AvlNode d l r h) [])"
proof -
  have "\<bar>getHeight l - getHeight r\<bar> \<le> 2" using assms(3-5) by auto
  from balance_ok[OF assms(1,2) this, of d h] obtain t where
    t: "balance (AvlNode d l r h) = Some t" "validateAVL t" "t \<noteq> Null"
    "inorder t = inorder l @ d # inorder r" by blast
  from t(2,3) have "height t = 1 + max (getHeight (left t)) (getHeight (right t))"
    "getHeight (left t) - getHeight (right t) \<in> {- 1, 0, 1}"
    by (cases t; auto split: if_splits)+
  then show ?thesis using t by (simp add: inorderHelper_append)
qed

theorem balance_contract_witness:
  "validateAVL (AvlNode (2::int) (AvlNode 1 Null Null 0) Null 1) \<and> validateAVL (Null :: int AvlNode)
   \<and> getBalanceFactor (AvlNode (3::int) (AvlNode 2 (AvlNode 1 Null Null 0) Null 1) Null 7) = Some 2
   \<and> balance (AvlNode (3::int) (AvlNode 2 (AvlNode 1 Null Null 0) Null 1) Null 7)
       = Some (AvlNode 2 (AvlNode 1 Null Null 0) (AvlNode 3 Null Null 0) 1)
   \<and> inorderHelper (AvlNode (3::int) (AvlNode 2 (AvlNode 1 Null Null 0) Null 1) Null 7) [] = [1, 2, 3]"
  using balance_contract[of "AvlNode (2::int) (AvlNode 1 Null Null 0) Null 1" Null 3 7 2]
  by simp

text \<open>
  Claim C3. In a valid state \<open>delete(k)\<close> returns true exactly when \<open>k\<close> was
  present (found by \<open>search\<close>, equivalently listed by \<open>inorderTraversal\<close>); the
  counter drops by exactly one exactly when it returns true and is unchanged otherwise.
  The statement covers every shape of the found node, the two-children case with its
  recursive deletion of the successor included; the witness is such a case.
\<close>

theorem delete_contract:
  assumes "valid_state t"
  shows "\<exists>t' removed. delete_key t k = Some (t', removed)
     \<and> (removed \<longleftrightarrow> search t k)
     \<and> (removed \<longleftrightarrow> k \<in> set (inorderTraversal t))
     \<and> (count t' = count t - 1 \<longleftrightarrow> removed)
     \<and> (if removed then count t' = count t - 1 else count t' = count t)
     \<and> valid_state t'"
proof -
  from delete_key_valid[OF assms, of k] obtain t' where
    t': "delete_key t k = Some (t', k \<in> set (inorderTraversal t))" "valid_state t'"
    "tree_size t' = (if k \<in> set (inorderTraversal t) then tree_size t - 1 else tree_size t)"
    by blast
  have "sorted_wrt (<) (inorder (tree_root t))"
    using assms by (simp add: valid_state_def isValidBST_iff inorderTraversal_def inorderHelper_append)
  then have "search t k \<longleftrightarrow> k \<in> set (inorderTraversal t)"
    by (simp add: search_def searchNode_iff inorderTraversal_def inorderHelper_append)
  then show ?thesis using t' by (simp add: count_def)
qed

theorem delete_contract_witness:
  "valid_state \<lparr>tree_root = AvlNode (2::int) (AvlNode 1 Null Null 0) (AvlNode 3 Null Null 0) 1, tree_size = 3\<rparr>
   \<and> delete_key \<lparr>tree_root = AvlNode (2::int) (AvlNode 1 Null Null 0) (AvlNode 3 Null Null 0) 1, tree_size = 3\<rparr> 2
       = Some (\<lparr>tree_root = AvlNode 3 (AvlNode 1 Null Null 0) Null 1, tree_size = 2\<rparr>, True)
   \<and> search \<lparr>tree_root = AvlNode (2::int) (AvlNode 1 Null Null 0) (AvlNode 3 Null Null 0) 1, tree_size = 3\<rparr> 2"
  using delete_contract[of "\<lparr>tree_root = AvlNode (2::int) (AvlNode 1 Null Null 0) (AvlNode 3 Null Null 0) 1, tree_size = 3\<rparr>" 2]
  by (simp add: run_defs)

text \<open>
  Claim C4. In a valid state that already stores \<open>k\<close>, \<open>insert(k)\<close> leaves the
  counter and \<open>inorderTraversal()\<close> unchanged.
\<close>

theorem duplicate_insert_noop:
  assumes "valid_state t" "search t k"
  shows "\<exists>t'. insert_key t k = Some t' \<and> count t' = count t
     \<and> inorderTraversal t' = inorderTraversal t"
proof -
  have "sorted_wrt (<) (inorder (tree_root t))"
    using assms(1) by (simp add: valid_state_def isValidBST_iff inorderTraversal_def inorderHelper_append)
  then have "k \<in> set (inorderTraversal t)"
    using assms(2) by (simp add: search_def searchNode_iff inorderTraversal_def inorderHelper_append)
  with insert_key_valid[OF assms(1), of k] show ?thesis by auto
qed

theorem duplicate_insert_noop_witness:
  "valid_state \<lparr>tree_root = AvlNode (2::int) (AvlNode 1 Null Null 0) (AvlNode 3 Null Null 0) 1, tree_size = 3\<rparr>
   \<and> search \<lparr>tree_root = AvlNode (2::int) (AvlNode 1 Null Null 0) (AvlNode 3 Null Null 0) 1, tree_size = 3\<rparr> 3
   \<and> insert_key \<lparr>tree_root = AvlNode (2::int) (AvlNode 1 Null Null 0) (AvlNode 3 Null Null 0) 1, tree_size = 3\<rparr> 3
       = Some \<lparr>tree_root = AvlNode 2 (AvlNode 1 Null Null 0) (AvlNode 3 Null Null 0) 1, tree_size = 3\<rparr>"
  using duplicate_insert_noop[of "\<lparr>tree_root = AvlNode (2::int) (AvlNode 1 Null Null 0) (AvlNode 3 Null Null 0) 1, tree_size = 3\<rparr>" 3]
  by (simp add: run_defs)

text \<open>
  Claim C5. Two insertion orders \<open>xs\<close> and \<open>ys\<close> of the same set of distinct keys,
  each inserted into the empty tree, give the same \<open>inorderTraversal()\<close>: the keys in
  ascending order.
\<close>

theorem insertion_order_irrelevant:
  assumes "distinct xs" "distinct ys" "set xs = set ys"
  shows "\<exists>t1 t2. run_operations empty_tree (map Insert xs) = Some t1
     \<and> run_operations empty_tree (map Insert ys) = Some t2
     \<and> inorderTraversal t1 = inorderTraversal t2
     \<and> inorderTraversal t1 = sorted_list_of_set (set xs)"
proof -
  have *: "\<exists>t. run_operations empty_tree (map Insert zs) = Some t
      \<and> inorderTraversal t = sorted_list_of_set (set zs)" for zs :: "'a list"
  proof -
    from run_inserts_valid[OF valid_state_empty, of zs] obtain t where
      t: "run_operations empty_tree (map Insert zs) = Some t" "valid_state t"
      "set (inorderTraversal t) = set (inorderTraversal (empty_tree :: 'a AvlBinarySearchTree)) \<union> set zs"
      by blast
    have "set (inorderTraversal t) = set zs"
      using t(3) by (simp add: empty_tree_def inorderTraversal_def)
    moreover have "sorted (inorderTraversal t) \<and> distinct (inorderTraversal t)"
      using t(2) by (simp add: valid_state_def isValidBST_iff strict_sorted_iff)
    ultimately have "sorted_list_of_set (set zs) = inorderTraversal t"
      using sorted_list_of_set.idem_if_sorted_distinct[of "inorderTraversal t"] by simp
    with t(1) show ?thesis by simp
  qed
  from *[of xs] *[of ys] assms(3) show ?thesis by auto
qed

theorem insertion_order_irrelevant_witness:
  "distinct [3, 1, 2::int] \<and> distinct [2, 3, 1::int] \<and> set [3, 1, 2::int] = set [2, 3, 1]
   \<and> run_operations empty_tree (map Insert [3, 1, 2::int])
       = Some \<lparr>tree_root = AvlNode 2 (AvlNode 1 Null Null 0) (AvlNode 3 Null Null 0) 1, tree_size = 3\<rparr>
   \<and> run_operations empty_tree (map Insert [2, 3, 1::int])
       = Some \<lparr>tree_root = AvlNode 2 (AvlNode 1 Null Null 0) (AvlNode 3 Null Null 0) 1, tree_size = 3\<rparr>
   \<and> sorted_list_of_set (set [3, 1, 2::int]) = [1, 2, 3]"
proof -
  have d1: "distinct [3, 1, 2::int]" and d2: "distinct [2, 3, 1::int]" by simp_all
  have eq: "set [3, 1, 2::int] = set [2, 3, 1]" by auto
  from insertion_order_irrelevant[OF d1 d2 eq] d1 d2 eq show ?thesis
    by (simp add: run_defs)
qed

text \<open>
  Claim C6. Take any sequence of inserts with no deletes, run from the empty tree, and
  let \<open>n\<close> be the number of successful inserts: the number of distinct keys, which is
  the counter \<open>size\<close> afterwards. The tree is one that can exist: \<open>n + 2 \<le> 2 ^ 64\<close>
  (the nodes of a tree are objects in memory, and the counter, a JavaScript number, is
  exact only up to \<open>2 ^ 53\<close>). Then the run returns and
  \<open>height() \<le> 1.44 * log 2 (n + 2) - 1\<close>. In particular, after inserting the keys
  1..1000 in ascending order \<open>height()\<close> is at most 16.
\<close>

theorem insert_only_height_bound:
  assumes "real (card (set xs)) + 2 \<le> 2 ^ 64"
  shows "\<exists>t. run_operations empty_tree (map Insert xs) = Some t
      \<and> count t = int (card (set xs))
      \<and> real_of_int (tree_height t) \<le> 1.44 * log 2 (real_of_int (count t) + 2) - 1
      \<and> (\<exists>u. run_operations empty_tree (map Insert [1..1000]) = Some u
             \<and> count u = 1000 \<and> tree_height u \<le> 16)"
proof -
  from insert_run_bounds[of "[1..1000]"] obtain u where
    u: "run_operations empty_tree (map Insert [1..1000]) = Some u"
    "count u = int (card (set [1..1000]))"
    "real_of_int (tree_height u) \<le> 1.45 * log 2 (real_of_int (count u) + 2) - 1" by blast
  have cu: "count u = 1000" using u(2) by simp
  have "log 2 (1002 :: real) \<le> log 2 (2 ^ 10)" by (subst log_le_cancel_iff) simp_all
  also have "\<dots> = real 10" by (subst log_nat_power) simp_all
  finally have "log 2 (1002 :: real) \<le> 10" by simp
  then have "real_of_int (tree_height u) \<le> 14" using u(3) unfolding cu by simp
  then have hu: "tree_height u \<le> 16" by linarith
  from insert_run_bounds[of xs] obtain t where
    t: "run_operations empty_tree (map Insert xs) = Some t"
    "count t = int (card (set xs))"
    "real_of_int (count t) + 2 \<le> 2 ^ 64 \<longrightarrow>
       real_of_int (tree_height t) \<le> 1.44 * log 2 (real_of_int (count t) + 2) - 1" by blast
  have "real_of_int (count t) + 2 \<le> 2 ^ 64" using assms t(2) by simp
  with t(3) have "real_of_int (tree_height t) \<le> 1.44 * log 2 (real_of_int (count t) + 2) - 1"
    by blast
  with t(1,2) u(1) cu hu show ?thesis by blast
qed

theorem insert_only_height_bound_witness:
  "real (card (set [1, 2, 3 :: int])) + 2 \<le> 2 ^ 64
   \<and> run_operations empty_tree (map Insert [1, 2, 3 :: int])
     = Some \<lparr>tree_root = AvlNode 2 (AvlNode 1 Null Null 0) (AvlNode 3 Null Null 0) 1, tree_size = 3\<rparr>
   \<and> (1 :: real) \<le> 1.44 * log 2 (3 + 2) - 1"
proof -
  have h: "real (card (set [1, 2, 3 :: int])) + 2 \<le> 2 ^ 64" by simp
  from insert_only_height_bound[OF h] h show ?thesis by (simp add: run_defs)
qed

text \<open>
  Two remarks on the size limit of Claim C6, on the model's unbounded integers. Without
  the limit the same runs satisfy \<open>height() \<le> 1.45 * log 2 (n + 2) - 1\<close>
  (\<open>insert_run_bounds\<close>). The constant 1.44 itself needs some limit there, since it is
  below \<open>1 / log 2 \<phi>\<close> = 1.4404\<dots> (\<open>\<phi>\<close> the golden ratio): the sparse tree with
  14400 levels has height 14399 and fewer than \<open>2 ^ 10000 - 2\<close> keys, and inserting
  its keys in level order builds it without a rotation. Such a tree has far more than
  \<open>2 ^ 64\<close> keys; no run that a machine can perform reaches it.
\<close>

lemma height_bound_needs_size_limit:
  "\<exists>xs :: int list. distinct xs
     \<and> (\<exists>t. run_operations empty_tree (map Insert xs) = Some t
            \<and> count t = int (length xs)
            \<and> \<not> real_of_int (tree_height t) \<le> 1.44 * log 2 (real (length xs) + 2) - 1)"
proof -
  define k :: nat where "k = 36 * 200 * 2"
  define e :: nat where "e = 25 * 200 * 2"
  define T where "T = sparse_tree k 0"
  have props: "validateAVL T" "getHeight T = int k - 1" "length (inorder T) = min_nodes k"
    "sorted_wrt (<) (inorder T)" using sparse_tree_props[of k 0] by (simp_all add: T_def)
  from avl_reachable_by_inserts[OF props(1,4)] obtain xs where
    xs: "distinct xs" "length xs = length (inorder T)"
    "run_operations empty_tree (map Insert xs) = Some \<lparr>tree_root = T, tree_size = int (length xs)\<rparr>"
    by blast
  let ?n = "real (length xs)"
  have "?n + 2 < 2 ^ e"
    using sparse_count_below_power xs(2) props(3) unfolding k_def e_def by (simp only:)
  then have "log 2 (?n + 2) < real e"
    by (intro log2_less_of_less_power) simp_all
  moreover have "real e = 10000" "int k - 1 = 14399" by (simp_all add: e_def k_def)
  ultimately have "\<not> real_of_int (getHeight T) \<le> 1.44 * log 2 (?n + 2) - 1"
    using props(2) by simp
  then have "\<not> real_of_int (tree_height \<lparr>tree_root = T, tree_size = int (length xs)\<rparr>)
      \<le> 1.44 * log 2 (?n + 2) - 1"
    by (simp add: tree_height_def)
  with xs(1,3) show ?thesis
    by (intro exI[of _ xs] conjI exI[of _ "\<lparr>tree_root = T, tree_size = int (length xs)\<rparr>"])
       (simp_all add: count_def)
qed

text \<open>
  Claim C7. In a valid state \<open>kthSmallest(k)\<close> returns \<open>null\<close> exactly when
  \<open>k\<close> is outside \<open>[1, size]\<close>, and for \<open>k\<close> in that range it returns element
  \<open>k - 1\<close> of \<open>inorderTraversal()\<close>.
\<close>

theorem kthSmallest_rank:
  assumes "valid_state t"
  shows "(kthSmallest t k = None \<longleftrightarrow> k < 1 \<or> k > count t)
     \<and> (if 1 \<le> k \<and> k \<le> count t
        then kthSmallest t k = Some (inorderTraversal t ! nat (k - 1))
        else kthSmallest t k = None)"
proof -
  have n: "tree_size t = int (length (inorder (tree_root t)))"
    using assms by (simp add: valid_state_def inorderTraversal_def inorderHelper_append)
  show ?thesis
    using kthSmallestHelper_spec[of k 0 "tree_root t"] n
    by (auto simp: kthSmallest_def count_def inorderTraversal_def inorderHelper_append)
qed

theorem kthSmallest_rank_witness:
  "valid_state \<lparr>tree_root = AvlNode (20::int) (AvlNode 10 Null Null 0) (AvlNode 30 Null Null 0) 1, tree_size = 3\<rparr>
   \<and> kthSmallest \<lparr>tree_root = AvlNode (20::int) (AvlNode 10 Null Null 0) (AvlNode 30 Null Null 0) 1, tree_size = 3\<rparr> 3 = Some 30
   \<and> kthSmallest \<lparr>tree_root = AvlNode (20::int) (AvlNode 10 Null Null 0) (AvlNode 30 Null Null 0) 1, tree_size = 3\<rparr> 4 = None
   \<and> kthSmallest \<lparr>tree_root = AvlNode (20::int) (AvlNode 10 Null Null 0) (AvlNode 30 Null Null 0) 1, tree_size = 3\<rparr> 0 = None"
  using kthSmallest_rank[of "\<lparr>tree_root = AvlNode (20::int) (AvlNode 10 Null Null 0) (AvlNode 30 Null Null 0) 1, tree_size = 3\<rparr>" 3]
  by (simp add: run_defs)

text \<open>
  Claim C8. Inserting 1, 2, 3, 4, 5 in this order into the empty tree gives a tree of
  height 2; \<open>delete(3)\<close> on it returns true and leaves \<open>inorderTraversal()\<close> =
  [1, 2, 4, 5] with \<open>isValidAVL()\<close> true.
\<close>

theorem ascending_five_scenario:
  "run_operations empty_tree (map Insert [1, 2, 3, 4, 5::int])
     = Some \<lparr>tree_root = AvlNode 2 (AvlNode 1 Null Null 0)
                (AvlNode 4 (AvlNode 3 Null Null 0) (AvlNode 5 Null Null 0) 1) 2, tree_size = 5\<rparr>
   \<and> tree_height \<lparr>tree_root = AvlNode (2::int) (AvlNode 1 Null Null 0)
                (AvlNode 4 (AvlNode 3 Null Null 0) (AvlNode 5 Null Null 0) 1) 2, tree_size = 5\<rparr> = 2
   \<and> delete_key \<lparr>tree_root = AvlNode (2::int) (AvlNode 1 Null Null 0)
                (AvlNode 4 (AvlNode 3 Null Null 0) (AvlNode 5 Null Null 0) 1) 2, tree_size = 5\<rparr> 3
     = Some (\<lparr>tree_root = AvlNode 2 (AvlNode 1 Null Null 0)
                (AvlNode 4 Null (AvlNode 5 Null Null 0) 1) 2, tree_size = 4\<rparr>, True)
   \<and> inorderTraversal \<lparr>tree_root = AvlNode (2::int) (AvlNode 1 Null Null 0)
                (AvlNode 4 Null (AvlNode 5 Null Null 0) 1) 2, tree_size = 4\<rparr> = [1, 2, 4, 5]
   \<and> isValidAVL \<lparr>tree_root = AvlNode (2::int) (AvlNode 1 Null Null 0)
                (AvlNode 4 Null (AvlNode 5 Null Null 0) 1) 2, tree_size = 4\<rparr>"
  by (simp add: run_defs)

text \<open>
  Claim C9. \<open>isBalanced()\<close> of the AVL class is true in every state. It is true of a
  right-leaning chain of three nodes with wrong cached heights, which \<open>isValidAVL()\<close>
  rejects and on whose shape the plain binary search tree's \<open>isBalanced\<close>, which
  measures the subtrees, returns false.
\<close>

theorem isBalanced_constant:
  "isBalanced t
   \<and> \<not> isValidAVL \<lparr>tree_root = AvlNode (1::int) Null (AvlNode 2 Null (AvlNode 3 Null Null 0) 0) 0, tree_size = 3\<rparr>
   \<and> isBalanced \<lparr>tree_root = AvlNode (1::int) Null (AvlNode 2 Null (AvlNode 3 Null Null 0) 0) 0, tree_size = 3\<rparr>
   \<and> \<not> bst_isBalanced (plain (AvlNode (1::int) Null (AvlNode 2 Null (AvlNode 3 Null Null 0) 0) 0))"
  by (simp add: isBalanced_def isValidAVL_def bst_isBalanced_def)

text \<open>
  Claim C10 as stated fails: in the one-key tree holding 5, both arguments 1 and 2 compare
  below the root, the descent goes to the absent left child, and
  \<open>lowestCommonAncestor(1, 2)\<close> is \<open>null\<close> although the tree is not empty.
\<close>

theorem lowestCommonAncestor_nonempty_counterexample:
  "insert_key empty_tree (5::int) = Some \<lparr>tree_root = AvlNode 5 Null Null 0, tree_size = 1\<rparr>
   \<and> tree_root \<lparr>tree_root = AvlNode (5::int) Null Null 0, tree_size = 1\<rparr> \<noteq> Null
   \<and> lowestCommonAncestor \<lparr>tree_root = AvlNode (5::int) Null Null 0, tree_size = 1\<rparr> 1 2 = None"
  by (simp add: run_defs)

text \<open>
  Claim C10, amended. On the empty tree \<open>lowestCommonAncestor\<close> returns \<open>null\<close>.
  On a tree that passes \<open>isValidBST()\<close> it returns a key exactly when some stored key
  lies between the two arguments (bounds included), and the key it returns is such a
  stored key; so it returns a key whenever one of the arguments is stored, and
  \<open>null\<close> when the tree stores no key between them.
\<close>

theorem lowestCommonAncestor_interval:
  assumes "isValidBST t"
  shows "lowestCommonAncestor empty_tree a b = None
     \<and> (lowestCommonAncestor t a b \<noteq> None
          \<longleftrightarrow> (\<exists>k\<in>set (inorderTraversal t). min a b \<le> k \<and> k \<le> max a b))
     \<and> (case lowestCommonAncestor t a b of
          None \<Rightarrow> True
        | Some d \<Rightarrow> d \<in> set (inorderTraversal t) \<and> min a b \<le> d \<and> d \<le> max a b)"
proof -
  have s: "sorted_wrt (<) (inorder (tree_root t))"
    using assms by (simp add: isValidBST_iff inorderTraversal_def inorderHelper_append)
  show ?thesis
    using findLCA_iff[OF s, of a b]
    by (cases "findLCA (tree_root t) a b")
       (auto simp: lowestCommonAncestor_def empty_tree_def inorderTraversal_def inorderHelper_append)
qed

theorem lowestCommonAncestor_interval_witness:
  "isValidBST \<lparr>tree_root = AvlNode (5::int) (AvlNode 3 Null Null 0) (AvlNode 8 Null Null 0) 1, tree_size = 3\<rparr>
   \<and> lowestCommonAncestor \<lparr>tree_root = AvlNode (5::int) (AvlNode 3 Null Null 0) (AvlNode 8 Null Null 0) 1, tree_size = 3\<rparr> 6 9 = Some 8
   \<and> lowestCommonAncestor \<lparr>tree_root = AvlNode (5::int) (AvlNode 3 Null Null 0) (AvlNode 8 Null Null 0) 1, tree_size = 3\<rparr> 6 7 = None"
  using lowestCommonAncestor_interval[of "\<lparr>tree_root = AvlNode (5::int) (AvlNode 3 Null Null 0) (AvlNode 8 Null Null 0) 1, tree_size = 3\<rparr>" 6 9]
    lowestCommonAncestor_interval[of "\<lparr>tree_root = AvlNode (5::int) (AvlNode 3 Null Null 0) (AvlNode 8 Null Null 0) 1, tree_size = 3\<rparr>" 6 7]
  by (simp add: run_defs)

end
